theory Spec2Isabelle
  imports Main
begin

section \<open>Values of the program\<close>

text \<open>
  A Go \<^verbatim>\<open>error\<close> value: a plain error, or one made by
  \<^verbatim>\<open>fmt.Errorf(prefix + "%w", err)\<close>, which keeps the wrapped error.
  The nil error is \<open>None\<close> of \<open>error option\<close>.
\<close>

datatype error = Error string | Errorf string error

datatype level = DebugLevel | InfoLevel | WarnLevel

type_synonym logfile = string

datatype log_output = DefaultOutput | ToFile logfile

record logger =
  out :: log_output
  log_level :: level

text \<open>
  Modelled from the spec: the constructor \<^verbatim>\<open>log.New\<close> of the imported logging
  package is not under src/. The spec's configuration surface says of the log-file path
  "empty = write logs to default process output"; the level of a fresh logger is the
  informational one, which \<open>initLogger\<close> raises to debug for a file.
\<close>

definition log_New :: logger where
  "log_New = \<lparr>out = DefaultOutput, log_level = InfoLevel\<rparr>"

text \<open>
  \<^verbatim>\<open>initLogger\<close> (main.go, lines 109 to 124). \<^verbatim>\<open>os.OpenFile\<close> is the operating
  system's answer for a path, a parameter of the model.
\<close>

definition initLogger :: "(string \<Rightarrow> error + logfile) \<Rightarrow> string \<Rightarrow> error + logger" where
  "initLogger openFile outPath =
     (if outPath = [] then Inr log_New
      else case openFile outPath of
        Inl err \<Rightarrow> Inl (Errorf ''failed to open log file: '' err)
      | Inr f \<Rightarrow> Inr (log_New\<lparr>log_level := DebugLevel, out := ToFile f\<rparr>))"

text \<open>\<^verbatim>\<open>runConfig\<close> (lines 126 to 131).\<close>

record runConfig =
  readOnly :: bool
  logger :: logger
  logCommands :: bool
  enabledToolsets :: "string list"

text \<open>
  What the process reads from its surroundings: the values bound in viper (flags and
  environment) and the file system's answer to \<^verbatim>\<open>os.OpenFile\<close>.
\<close>

record env =
  log_file :: string
  read_only :: bool
  toolsets :: "string list"
  enable_command_logging :: bool
  HCP_TFE_TOKEN :: string
  HCP_TFE_ADDRESS :: string
  openFile :: "string \<Rightarrow> error + logfile"

section \<open>The supervisor and the background goroutine as a transition system\<close>

text \<open>
  Every call that leaves \<^verbatim>\<open>runStdioServer\<close> or \<^verbatim>\<open>stdioCmd.Run\<close> is an
  action; a run records its actions in the order they happen. \<open>Signal\<close> is the
  cancellation of the context by an interruption signal; \<open>SendErrC\<close> is the send of
  line 183; \<open>SelectBlocked\<close>, \<open>SelectDone\<close> and \<open>SelectRecv\<close> say what the
  \<^verbatim>\<open>select\<close> of line 190 did: it blocked with no case ready, it took the case of
  line 191, or it took the case of line 193 with the value received.
\<close>

datatype action =
    Log logger level string
  | NewSegmentAnalytics logger
  | Track string
  | NotifyContext
  | NewServer
  | TfeInit string string
  | InitRegistryClient
  | InitTools logger
  | RegisterResources logger
  | RegisterResourceTemplates logger
  | NewStdioServer
  | SetErrorLogger logger
  | MakeChan nat
  | Go
  | Stderr string
  | NewIOLogger logger
  | Listen bool
  | ListenReturned "error option"
  | SendErrC "error option"
  | Signal
  | SelectBlocked
  | SelectDone
  | SelectRecv "error option"
  | Stop
  | Close
  | Return "error option"
  | Fatal string error
  | Exit nat

text \<open>
  The program points of the foreground goroutine, named by the line of main.go about to
  run (\<open>L148\<close> stands for lines 148 and 149, \<open>L150\<close> for lines 150 to 167,
  \<open>L169\<close> for lines 169 to 171). \<open>Parked\<close> is the goroutine blocked in the
  \<^verbatim>\<open>select\<close> of line 190; \<open>L192\<close> and \<open>L194 r\<close> are the bodies of its cases;
  \<open>Returning r\<close> runs the deferred calls; \<open>Returned r\<close> is back in
  \<^verbatim>\<open>stdioCmd.Run\<close> at line 73 with the result \<open>r\<close>.
\<close>

datatype spc =
    L135 | L136 | L140 | L146 | L148 | L150 | L169 | L174 | L175 | L187 | L190
  | Parked
  | L192
  | L194 "error option"
  | Returning "error option"
  | Returned "error option"
  | Exited nat

text \<open>The program points of the goroutine started at line 175.\<close>

datatype lpc =
    NotSpawned
  | B176
  | B183 bool
  | Listening
  | Sending "error option"
  | Finished

datatype deferred = DeferClose | DeferStop

record state =
  main_pc :: spc
  loop_pc :: lpc
  defers :: "deferred list"
  listener :: bool
  ctx_done :: bool
  errC_cap :: nat
  errC :: "error option list"
  trace :: "action list"

definition init :: state where
  "init = \<lparr>main_pc = L135, loop_pc = NotSpawned, defers = [], listener = False,
            ctx_done = False, errC_cap = 0, errC = [], trace = []\<rparr>"

definition emit :: "action list \<Rightarrow> state \<Rightarrow> state" where
  "emit as s = s\<lparr>trace := trace s @ as\<rparr>"

definition goto :: "spc \<Rightarrow> state \<Rightarrow> state" where
  "goto p s = s\<lparr>main_pc := p\<rparr>"

text \<open>Lines 150 to 167: the server and its tools, with the token branch of lines 152 to 162.\<close>

definition setup_actions :: "runConfig \<Rightarrow> env \<Rightarrow> action list" where
  "setup_actions cfg e =
     [NewServer] @
     (if HCP_TFE_TOKEN e \<noteq> [] then
        (if HCP_TFE_ADDRESS e = [] then
           [Log (logger cfg) WarnLevel
              ''HCP_TFE_ADDRESS not set, defaulting to https://app.terraform.io'',
            TfeInit (HCP_TFE_TOKEN e) ''https://app.terraform.io'']
         else [TfeInit (HCP_TFE_TOKEN e) (HCP_TFE_ADDRESS e)])
      else [Log (logger cfg) WarnLevel
              ''HCP_TFE_TOKEN not set, defaulting to non-authenticated client'']) @
     [InitRegistryClient, InitTools (logger cfg), RegisterResources (logger cfg),
      RegisterResourceTemplates (logger cfg)]"

text \<open>
  A deferred call, run when \<^verbatim>\<open>runStdioServer\<close> returns. \<^verbatim>\<open>stop\<close> (deferred at
  line 149) unregisters the signal listener and cancels the context;
  \<^verbatim>\<open>analytics.Close\<close> (deferred at line 146) closes the telemetry sink.
\<close>

fun run_deferred :: "deferred \<Rightarrow> state \<Rightarrow> state" where
  "run_deferred DeferStop s = emit [Stop] (s\<lparr>listener := False, ctx_done := True\<rparr>)"
| "run_deferred DeferClose s = emit [Close] s"

text \<open>
  Which case of the \<^verbatim>\<open>select\<close> the Go runtime takes when both can proceed: Go
  chooses among the ready cases pseudo-randomly, so the choice is an input of the step.
\<close>

datatype select_case = CaseCtxDone | CaseErrC

text \<open>
  The \<^verbatim>\<open>select\<close> of lines 190 to 197 when the goroutine reaches it: a case that can
  proceed is taken (either one when both can); with none ready the goroutine parks.
\<close>

definition select_poll :: "select_case \<Rightarrow> state \<Rightarrow> state" where
  "select_poll pick s =
     (case errC s of
        [] \<Rightarrow> (if ctx_done s then goto L192 (emit [SelectDone] s)
               else goto Parked (emit [SelectBlocked] s))
      | r # rs \<Rightarrow>
          (if ctx_done s \<and> pick = CaseCtxDone then goto L192 (emit [SelectDone] s)
           else goto (L194 r) (emit [SelectRecv r] (s\<lparr>errC := rs\<rparr>))))"

text \<open>One statement of the foreground goroutine; \<open>None\<close> when it cannot run.\<close>

fun supervisor_step ::
  "runConfig \<Rightarrow> env \<Rightarrow> select_case \<Rightarrow> spc \<Rightarrow> state \<Rightarrow> state option" where
  "supervisor_step cfg e pick L135 s =
     Some (goto L136 (emit [Log (logger cfg) InfoLevel ''initializing analytics''] s))"
| "supervisor_step cfg e pick L136 s =
     Some (goto L140 (emit [NewSegmentAnalytics (logger cfg)] s))"
| "supervisor_step cfg e pick L140 s = Some (goto L146 (emit [Track ''mcp_server_started''] s))"
| "supervisor_step cfg e pick L146 s = Some (goto L148 (s\<lparr>defers := DeferClose # defers s\<rparr>))"
| "supervisor_step cfg e pick L148 s =
     Some (goto L150 (emit [NotifyContext] (s\<lparr>listener := True, defers := DeferStop # defers s\<rparr>)))"
| "supervisor_step cfg e pick L150 s = Some (goto L169 (emit (setup_actions cfg e) s))"
| "supervisor_step cfg e pick L169 s = Some (goto L174 (emit [NewStdioServer, SetErrorLogger (logger cfg)] s))"
| "supervisor_step cfg e pick L174 s = Some (goto L175 (emit [MakeChan 1] (s\<lparr>errC_cap := 1, errC := []\<rparr>)))"
| "supervisor_step cfg e pick L175 s = Some (goto L187 (emit [Go] (s\<lparr>loop_pc := B176\<rparr>)))"
| "supervisor_step cfg e pick L187 s =
     Some (goto L190 (emit [Stderr ''HCP Terraform MCP Server running on stdio\<newline>''] s))"
| "supervisor_step cfg e pick L190 s = Some (select_poll pick s)"
| "supervisor_step cfg e pick Parked s = None"
| "supervisor_step cfg e pick L192 s =
     Some (goto (Returning None) (emit [Log (logger cfg) InfoLevel ''shutting down server...''] s))"
| "supervisor_step cfg e pick (L194 None) s = Some (goto (Returning None) s)"
| "supervisor_step cfg e pick (L194 (Some err)) s =
     Some (goto (Returning (Some (Errorf ''error running server: '' err))) s)"
| "supervisor_step cfg e pick (Returning r) s =
     (case defers s of
        d # ds \<Rightarrow> Some (run_deferred d (s\<lparr>defers := ds\<rparr>))
      | [] \<Rightarrow> Some (goto (Returned r) (emit [Return r] s)))"
| "supervisor_step cfg e pick (Returned None) s = Some (goto (Exited 0) (emit [Exit 0] s))"
| "supervisor_step cfg e pick (Returned (Some err)) s =
     Some (goto (Exited 1) (emit [Fatal ''failed to run stdio server:'' err, Exit 1] s))"
| "supervisor_step cfg e pick (Exited n) s = None"

text \<open>
  The send of line 183 on a channel of capacity \<open>errC_cap\<close>: a receiver parked in the
  \<^verbatim>\<open>select\<close> gets the value directly and is woken with that case; otherwise the
  value goes into the buffer when there is room; otherwise the sender blocks.
\<close>

definition send_errC :: "error option \<Rightarrow> state \<Rightarrow> state option" where
  "send_errC r s =
     (if main_pc s = Parked then
        Some (goto (L194 r) (emit [SendErrC r, SelectRecv r] (s\<lparr>loop_pc := Finished\<rparr>)))
      else if length (errC s) < errC_cap s then
        Some (emit [SendErrC r] (s\<lparr>loop_pc := Finished, errC := errC s @ [r]\<rparr>))
      else None)"

text \<open>
  One statement of the goroutine of lines 175 to 184. In \<open>Listening\<close> it is inside
  \<^verbatim>\<open>stdioServer.Listen\<close>, which returns only by the event \<open>ListenReturns\<close>.
\<close>

fun loop_step :: "runConfig \<Rightarrow> lpc \<Rightarrow> state \<Rightarrow> state option" where
  "loop_step cfg NotSpawned s = None"
| "loop_step cfg B176 s =
     Some (if logCommands cfg then emit [NewIOLogger (logger cfg)] (s\<lparr>loop_pc := B183 True\<rparr>)
           else s\<lparr>loop_pc := B183 False\<rparr>)"
| "loop_step cfg (B183 tapped) s = Some (emit [Listen tapped] (s\<lparr>loop_pc := Listening\<rparr>))"
| "loop_step cfg Listening s = None"
| "loop_step cfg (Sending r) s = send_errC r s"
| "loop_step cfg Finished s = None"

text \<open>
  What can happen next: the foreground goroutine runs a statement, the background one
  does, \<^verbatim>\<open>Listen\<close> returns a result (the Message Loop is an imported package: when it
  returns and with what is the environment's choice), or an interruption signal arrives.
  A signal is modelled while the listener of \<^verbatim>\<open>signal.NotifyContext\<close> is registered:
  it cancels the context and wakes a parked \<^verbatim>\<open>select\<close> with that case.
  Nothing runs once the process has exited.
\<close>

datatype event =
    Supervisor select_case
  | Background
  | ListenReturns "error option"
  | Interrupt

fun exited :: "spc \<Rightarrow> bool" where
  "exited (Exited n) = True"
| "exited p = False"

definition interrupt :: "state \<Rightarrow> state option" where
  "interrupt s =
     (if listener s then
        Some (if main_pc s = Parked then goto L192 (emit [Signal, SelectDone] (s\<lparr>ctx_done := True\<rparr>))
              else emit [Signal] (s\<lparr>ctx_done := True\<rparr>))
      else None)"

definition listen_returns :: "error option \<Rightarrow> state \<Rightarrow> state option" where
  "listen_returns r s =
     (if loop_pc s = Listening then Some (emit [ListenReturned r] (s\<lparr>loop_pc := Sending r\<rparr>))
      else None)"

fun step :: "runConfig \<Rightarrow> env \<Rightarrow> event \<Rightarrow> state \<Rightarrow> state option" where
  "step cfg e (Supervisor pick) s = supervisor_step cfg e pick (main_pc s) s"
| "step cfg e Background s = (if exited (main_pc s) then None else loop_step cfg (loop_pc s) s)"
| "step cfg e (ListenReturns r) s = (if exited (main_pc s) then None else listen_returns r s)"
| "step cfg e Interrupt s = (if exited (main_pc s) then None else interrupt s)"

text \<open>A schedule is a list of events; an event that cannot happen in a state is skipped.\<close>

definition apply_event :: "runConfig \<Rightarrow> env \<Rightarrow> event \<Rightarrow> state \<Rightarrow> state" where
  "apply_event cfg e ev s = (case step cfg e ev s of None \<Rightarrow> s | Some s' \<Rightarrow> s')"

fun exec :: "runConfig \<Rightarrow> env \<Rightarrow> event list \<Rightarrow> state \<Rightarrow> state" where
  "exec cfg e [] s = s"
| "exec cfg e (ev # evs) s = exec cfg e evs (apply_event cfg e ev s)"

text \<open>\<^verbatim>\<open>runStdioServer\<close> (lines 133 to 200) and what follows it in \<^verbatim>\<open>stdioCmd.Run\<close>.\<close>

definition runStdioServer :: "runConfig \<Rightarrow> env \<Rightarrow> event list \<Rightarrow> state" where
  "runStdioServer cfg e sched = exec cfg e sched init"

text \<open>
  \<^verbatim>\<open>stdioCmd.Run\<close> (lines 56 to 76): \<^verbatim>\<open>stdlog.Fatal\<close> prints and exits with
  status 1.
\<close>

definition stdioCmd_Run :: "env \<Rightarrow> event list \<Rightarrow> state" where
  "stdioCmd_Run e sched =
     (case initLogger (openFile e) (log_file e) of
        Inl err \<Rightarrow> init\<lparr>main_pc := Exited 1,
                         trace := [Fatal ''Failed to initialize logger:'' err, Exit 1]\<rparr>
      | Inr lg \<Rightarrow>
          runStdioServer
            \<lparr>readOnly = read_only e, logger = lg,
             logCommands = enable_command_logging e, enabledToolsets = toolsets e\<rparr>
            e sched)"


section \<open>Reading a run\<close>

text \<open>How far the foreground goroutine has come.\<close>

fun stage :: "spc \<Rightarrow> nat" where
  "stage L135 = 0"
| "stage L136 = 1"
| "stage L140 = 2"
| "stage L146 = 3"
| "stage L148 = 4"
| "stage L150 = 5"
| "stage L169 = 6"
| "stage L174 = 7"
| "stage L175 = 8"
| "stage L187 = 9"
| "stage L190 = 10"
| "stage Parked = 11"
| "stage L192 = 12"
| "stage (L194 r) = 12"
| "stage (Returning r) = 13"
| "stage (Returned r) = 14"
| "stage (Exited n) = 15"

text \<open>\<^verbatim>\<open>runStdioServer\<close> has returned (the process may have exited since).\<close>

fun returned :: "spc \<Rightarrow> bool" where
  "returned (Returned r) = True"
| "returned (Exited n) = True"
| "returned p = False"

text \<open>The \<^verbatim>\<open>select\<close> has taken a case and the function has not returned yet.\<close>

fun shutting_down :: "spc \<Rightarrow> bool" where
  "shutting_down L192 = True"
| "shutting_down (L194 r) = True"
| "shutting_down (Returning r) = True"
| "shutting_down p = False"

text \<open>The program points of a shutdown with a nil result.\<close>

fun clean :: "spc \<Rightarrow> bool" where
  "clean L192 = True"
| "clean (Returning None) = True"
| "clean (Returned None) = True"
| "clean (Exited n) = (n = 0)"
| "clean p = False"

text \<open>The program points after the channel delivered \<open>r\<close> to the \<^verbatim>\<open>select\<close>.\<close>

fun after_recv :: "error option \<Rightarrow> spc \<Rightarrow> bool" where
  "after_recv r (L194 r') = (r' = r)"
| "after_recv r (Returning r') = (map_option (Errorf ''error running server: '') r = r')"
| "after_recv r (Returned r') = (map_option (Errorf ''error running server: '') r = r')"
| "after_recv r (Exited n) = (n = (if r = None then 0 else 1))"
| "after_recv r p = False"

text \<open>\<open>precedes a b tr\<close>: no \<open>b\<close> stands in \<open>tr\<close> before the first \<open>a\<close>.\<close>

fun precedes :: "'a \<Rightarrow> 'a \<Rightarrow> 'a list \<Rightarrow> bool" where
  "precedes a b [] = True"
| "precedes a b (x # xs) = (if x = a then True else if x = b then False else precedes a b xs)"

fun is_select :: "action \<Rightarrow> bool" where
  "is_select SelectDone = True"
| "is_select (SelectRecv r) = True"
| "is_select a = False"

fun is_send :: "action \<Rightarrow> bool" where
  "is_send (SendErrC r) = True"
| "is_send a = False"

fun is_return :: "action \<Rightarrow> bool" where
  "is_return (Return r) = True"
| "is_return a = False"

text \<open>
  Which of the two events occurred first in a run: the cancellation of the context by a
  signal, or the Message Loop's terminal result becoming available on the channel.
\<close>

fun first_event :: "action list \<Rightarrow> select_case option" where
  "first_event [] = None"
| "first_event (Signal # tr) = Some CaseCtxDone"
| "first_event (SendErrC r # tr) = Some CaseErrC"
| "first_event (a # tr) = first_event tr"

text \<open>Which case the \<^verbatim>\<open>select\<close> took: what triggered the shutdown.\<close>

fun trigger :: "action list \<Rightarrow> select_case option" where
  "trigger [] = None"
| "trigger (SelectDone # tr) = Some CaseCtxDone"
| "trigger (SelectRecv r # tr) = Some CaseErrC"
| "trigger (a # tr) = trigger tr"

text \<open>The part of a run before the \<^verbatim>\<open>select\<close> took a case.\<close>

definition before_select :: "action list \<Rightarrow> action list" where
  "before_select tr = takeWhile (\<lambda>a. \<not> is_select a) tr"

fun is_supervisor :: "event \<Rightarrow> bool" where
  "is_supervisor (Supervisor pick) = True"
| "is_supervisor ev = False"

text \<open>How many statements of its own the foreground goroutine gets to run in a schedule.\<close>

definition supervisor_turns :: "event list \<Rightarrow> nat" where
  "supervisor_turns evs = length (filter is_supervisor evs)"

text \<open>
  The statements the foreground goroutine still has to run before
  \<^verbatim>\<open>runStdioServer\<close> has returned, once the \<^verbatim>\<open>select\<close> can take a case;
  \<open>d\<close> is the number of deferred calls still to run.
\<close>

fun to_return :: "spc \<Rightarrow> nat \<Rightarrow> nat" where
  "to_return L190 d = d + 3"
| "to_return L192 d = d + 2"
| "to_return (L194 r) d = d + 2"
| "to_return (Returning r) d = d + 1"
| "to_return p d = 0"

text \<open>The same, up to the exit of the process.\<close>

fun to_exit :: "spc \<Rightarrow> nat \<Rightarrow> nat" where
  "to_exit (Exited n) d = 0"
| "to_exit (Returned r) d = 1"
| "to_exit p d = to_return p d + 1"

text \<open>
  The foreground goroutine is at the \<^verbatim>\<open>select\<close> with a case that can proceed, or past
  it: nothing it still has to do waits for anything.
\<close>

definition unblocked :: "state \<Rightarrow> bool" where
  "unblocked s =
     (case main_pc s of
        L190 \<Rightarrow> ctx_done s \<or> errC s \<noteq> []
      | Parked \<Rightarrow> False
      | p \<Rightarrow> 10 \<le> stage p)"

text \<open>The Message Loop never returns an error in this schedule.\<close>

fun returns_nil :: "event \<Rightarrow> bool" where
  "returns_nil (ListenReturns r) = (r = None)"
| "returns_nil ev = True"

fun no_interrupt :: "event \<Rightarrow> bool" where
  "no_interrupt Interrupt = False"
| "no_interrupt ev = True"


text \<open>The results \<^verbatim>\<open>Listen\<close> has returned in a run, in order.\<close>

fun listen_results :: "action list \<Rightarrow> error option list" where
  "listen_results [] = []"
| "listen_results (ListenReturned r # tr) = r # listen_results tr"
| "listen_results (a # tr) = listen_results tr"

text \<open>What the \<^verbatim>\<open>select\<close> records when it receives the value of a send.\<close>

fun recv_of :: "action \<Rightarrow> action" where
  "recv_of (SendErrC r) = SelectRecv r"
| "recv_of a = a"

section \<open>The Recording Tap\<close>

text \<open>
  Modelled from the spec: the tap that line 179 builds (\<^verbatim>\<open>iolog.NewIOLogger\<close>, of an
  imported package) is not under src/. Section 4.1 of the spec gives a duplex stream pair
  a byte-oriented read side, which signals the end of the stream, and a write side, which
  may fail; here a pair is any reader and writer over a state of the streams, and the
  answer of an operation is its bytes or count together with its error, if any.
\<close>

type_synonym bytes = string

datatype direction = Inbound | Outbound

type_synonym 's reader = "nat \<Rightarrow> 's \<Rightarrow> (bytes \<times> error option) \<times> 's"

type_synonym 's writer = "bytes \<Rightarrow> 's \<Rightarrow> (nat \<times> error option) \<times> 's"

text \<open>
  Modelled from the spec: the sink of the tap. A write to it says whether it succeeded;
  section 4.2 asks that a failure is "reported as a background warning only".
\<close>

type_synonym 'k recorder = "direction \<Rightarrow> bytes \<Rightarrow> 'k \<Rightarrow> bool \<times> 'k"

record ('s, 'k) tapped =
  inner :: 's
  sink :: 'k
  warnings :: nat

definition record_bytes ::
  "'k recorder \<Rightarrow> direction \<Rightarrow> bytes \<Rightarrow> ('s, 'k) tapped \<Rightarrow> ('s, 'k) tapped" where
  "record_bytes rc d bs t =
     (case rc d bs (sink t) of
        (ok, k') \<Rightarrow> t\<lparr>sink := k', warnings := (if ok then warnings t else Suc (warnings t))\<rparr>)"

text \<open>
  Modelled from the spec (section 4.2): "every byte read from, and every byte written to,
  the underlying pair is also appended to the sink, in the exact order it crosses the
  boundary, before (write side) or after (read side) being delivered to/from the caller".
\<close>

definition tap_read :: "'k recorder \<Rightarrow> 's reader \<Rightarrow> ('s, 'k) tapped reader" where
  "tap_read rc rd n t =
     (case rd n (inner t) of
        (res, s') \<Rightarrow> (res, record_bytes rc Inbound (fst res) (t\<lparr>inner := s'\<rparr>)))"

definition tap_write :: "'k recorder \<Rightarrow> 's writer \<Rightarrow> ('s, 'k) tapped writer" where
  "tap_write rc wr bs t =
     (case wr bs (inner (record_bytes rc Outbound bs t)) of
        (res, s') \<Rightarrow> (res, (record_bytes rc Outbound bs t)\<lparr>inner := s'\<rparr>))"

text \<open>
  The Message Loop (\<^verbatim>\<open>stdioServer.Listen\<close>, of an imported package) as seen from its
  streams: any program that reads and writes, each next operation chosen from the answers
  so far, and finishes with a result.
\<close>

datatype 'r client =
    Finish 'r
  | Read nat "bytes \<times> error option \<Rightarrow> 'r client"
  | Write bytes "nat \<times> error option \<Rightarrow> 'r client"

datatype observation = ReadResult bytes "error option" | WriteResult nat "error option"

text \<open>A client run on a pair: its result, every answer it got, and the streams afterwards.\<close>

primrec run_client ::
  "'s reader \<Rightarrow> 's writer \<Rightarrow> 'r client \<Rightarrow> 's \<Rightarrow> ('r \<times> observation list) \<times> 's" where
  "run_client rd wr (Finish r) = (\<lambda>s. ((r, []), s))"
| "run_client rd wr (Read n k) =
     (\<lambda>s. case rd n s of
        (res, s') \<Rightarrow>
          (case run_client rd wr (k res) s' of
             ((r, obs), s'') \<Rightarrow> ((r, ReadResult (fst res) (snd res) # obs), s'')))"
| "run_client rd wr (Write bs k) =
     (\<lambda>s. case wr bs s of
        (res, s') \<Rightarrow>
          (case run_client rd wr (k res) s' of
             ((r, obs), s'') \<Rightarrow> ((r, WriteResult (fst res) (snd res) # obs), s'')))"

text \<open>
  Lines 176 to 183: the loop runs on the raw pair, or on the tapped pair when
  \<open>logCommands\<close> is set. The view is what the loop and the peer can see: the loop's
  result and answers, and the underlying streams.
\<close>

definition session ::
  "runConfig \<Rightarrow> 'k recorder \<Rightarrow> 's reader \<Rightarrow> 's writer \<Rightarrow> 'r client \<Rightarrow> 's \<Rightarrow> 'k \<Rightarrow>
     ('r \<times> observation list) \<times> 's" where
  "session cfg rc rd wr loop s k =
     (if logCommands cfg then
        (case run_client (tap_read rc rd) (tap_write rc wr) loop
                \<lparr>inner = s, sink = k, warnings = 0\<rparr> of
           (result, t) \<Rightarrow> (result, inner t))
      else run_client rd wr loop s)"

text \<open>
  Modelled from the spec (section 4.1): a pair with the bytes the peer has sent and those
  delivered to it; reading at the end gives the end-of-stream error, writing to a peer
  that has gone away fails.
\<close>

record pipe =
  incoming :: bytes
  outgoing :: bytes
  peer_gone :: bool

definition pipe_read :: "pipe reader" where
  "pipe_read n p =
     (if incoming p = [] then (([], Some (Error ''EOF'')), p)
      else ((take n (incoming p), None), p\<lparr>incoming := drop n (incoming p)\<rparr>))"

definition pipe_write :: "pipe writer" where
  "pipe_write bs p =
     (if peer_gone p then ((0, Some (Error ''write: broken pipe'')), p)
      else ((length bs, None), p\<lparr>outgoing := outgoing p @ bs\<rparr>))"

text \<open>A sink that keeps what it is given, and a loop that echoes one chunk.\<close>

definition list_recorder :: "(direction \<times> bytes) list recorder" where
  "list_recorder d bs k = (True, k @ [(d, bs)])"

definition echo_once :: "(error option) client" where
  "echo_once =
     Read 16 (\<lambda>(bs, err). case err of
        Some e \<Rightarrow> Finish None
      | None \<Rightarrow> Write bs (\<lambda>(n, err'). Finish err'))"

section \<open>Invariants of a run\<close>

fun defers_ok :: "spc \<Rightarrow> deferred list \<Rightarrow> bool" where
  "defers_ok L135 ds = (ds = [])"
| "defers_ok L136 ds = (ds = [])"
| "defers_ok L140 ds = (ds = [])"
| "defers_ok L146 ds = (ds = [])"
| "defers_ok L148 ds = (ds = [DeferClose])"
| "defers_ok (Returning r) ds = (ds = [DeferStop, DeferClose] \<or> ds = [DeferClose] \<or> ds = [])"
| "defers_ok (Returned r) ds = (ds = [])"
| "defers_ok (Exited n) ds = (ds = [])"
| "defers_ok p ds = (ds = [DeferStop, DeferClose])"

fun close_ran :: "spc \<Rightarrow> deferred list \<Rightarrow> bool" where
  "close_ran (Returning r) ds = (DeferClose \<notin> set ds)"
| "close_ran (Returned r) ds = True"
| "close_ran (Exited n) ds = True"
| "close_ran p ds = False"

definition before_return :: "action list \<Rightarrow> action list" where
  "before_return tr = takeWhile (\<lambda>a. \<not> is_return a) tr"

definition inv_defers :: "state \<Rightarrow> bool" where
  "inv_defers s =
     (defers_ok (main_pc s) (defers s) \<and>
      count_list (trace s) Close = (if close_ran (main_pc s) (defers s) then 1 else 0) \<and>
      (\<not> returned (main_pc s) \<longrightarrow> filter is_return (trace s) = []) \<and>
      (returned (main_pc s) \<longrightarrow>
         filter is_return (trace s) \<noteq> [] \<and> Close \<in> set (before_return (trace s))) \<and>
      (listener s \<longrightarrow> 5 \<le> stage (main_pc s)) \<and>
      (ctx_done s \<longrightarrow> 5 \<le> stage (main_pc s)))"

definition inv_chan :: "state \<Rightarrow> bool" where
  "inv_chan s =
     ((8 \<le> stage (main_pc s) \<longrightarrow> errC_cap s = 1) \<and>
      ((loop_pc s = NotSpawned) = (stage (main_pc s) \<le> 8)) \<and>
      (loop_pc s \<noteq> Finished \<longrightarrow> errC s = []) \<and>
      length (errC s) \<le> 1 \<and>
      length (filter is_send (trace s)) = (if loop_pc s = Finished then 1 else 0) \<and>
      (loop_pc s = Finished \<and> stage (main_pc s) \<le> 11 \<longrightarrow> errC s \<noteq> []) \<and>
      (main_pc s = Parked \<longrightarrow> \<not> ctx_done s \<and> errC s = []))"

definition outcome_ok :: "action list \<Rightarrow> spc \<Rightarrow> bool" where
  "outcome_ok sel p =
     (case sel of
        [] \<Rightarrow> stage p \<le> 11
      | [a] \<Rightarrow> (case a of SelectDone \<Rightarrow> clean p | SelectRecv r \<Rightarrow> after_recv r p | _ \<Rightarrow> False)
      | _ \<Rightarrow> False)"

definition inv_select :: "state \<Rightarrow> bool" where
  "inv_select s = outcome_ok (filter is_select (trace s)) (main_pc s)"

definition inv_trigger :: "state \<Rightarrow> bool" where
  "inv_trigger s =
     ((stage (main_pc s) \<le> 11 \<longrightarrow>
         trigger (trace s) = None \<and> (Signal \<in> set (trace s)) = ctx_done s) \<and>
      (stage (main_pc s) \<le> 10 \<longrightarrow> SelectBlocked \<notin> set (trace s)) \<and>
      (12 \<le> stage (main_pc s) \<longrightarrow>
         trigger (trace s) \<noteq> None \<and>
         (trigger (trace s) = Some CaseCtxDone \<longrightarrow> Signal \<in> set (before_select (trace s))) \<and>
         (trigger (trace s) = Some CaseErrC \<longrightarrow> filter is_send (before_select (trace s)) \<noteq> []) \<and>
         (SelectBlocked \<in> set (trace s) \<longrightarrow> first_event (trace s) = trigger (trace s))))"

definition result_of :: "action list \<Rightarrow> error option" where
  "result_of tr =
     (case filter is_select tr of
        [SelectRecv r] \<Rightarrow> map_option (Errorf ''error running server: '') r
      | _ \<Rightarrow> None)"

definition inv_report :: "state \<Rightarrow> bool" where
  "inv_report s =
     ((returned (main_pc s) \<longrightarrow> Return (result_of (trace s)) \<in> set (trace s)) \<and>
      (exited (main_pc s) \<longrightarrow>
         (case result_of (trace s) of
            None \<Rightarrow> True
          | Some err \<Rightarrow> Fatal ''failed to run stdio server:'' err \<in> set (trace s))))"

fun nil_pc :: "spc \<Rightarrow> bool" where
  "nil_pc (L194 r) = (r = None)"
| "nil_pc (Returning r) = (r = None)"
| "nil_pc (Returned r) = (r = None)"
| "nil_pc (Exited n) = (n = 0)"
| "nil_pc p = True"

fun nil_loop :: "lpc \<Rightarrow> bool" where
  "nil_loop (Sending r) = (r = None)"
| "nil_loop p = True"

definition inv_nil :: "state \<Rightarrow> bool" where
  "inv_nil s = (nil_pc (main_pc s) \<and> nil_loop (loop_pc s) \<and> list_all (\<lambda>r. r = None) (errC s))"

definition inv_quiet :: "state \<Rightarrow> bool" where
  "inv_quiet s = ((stage (main_pc s) \<le> 12 \<longrightarrow> \<not> ctx_done s) \<and> SelectDone \<notin> set (trace s))"

definition inv_order :: "state \<Rightarrow> bool" where
  "inv_order s =
     (precedes (Track ''mcp_server_started'') Go (trace s) \<and>
      precedes (Track ''mcp_server_started'') (Listen True) (trace s) \<and>
      precedes (Track ''mcp_server_started'') (Listen False) (trace s) \<and>
      (3 \<le> stage (main_pc s) \<longrightarrow> Track ''mcp_server_started'' \<in> set (trace s)) \<and>
      (loop_pc s \<noteq> NotSpawned \<longrightarrow> 3 \<le> stage (main_pc s)))"

text \<open>
  What has been sent, by the program point of the background goroutine: nothing before its
  send, and after it the one result that \<^verbatim>\<open>Listen\<close> returned.
\<close>

fun sent_ok :: "lpc \<Rightarrow> action list \<Rightarrow> bool" where
  "sent_ok (Sending r) tr = (listen_results tr = [r] \<and> filter is_send tr = [])"
| "sent_ok Finished tr =
     (length (listen_results tr) = 1 \<and> filter is_send tr = map SendErrC (listen_results tr))"
| "sent_ok p tr = (listen_results tr = [] \<and> filter is_send tr = [])"

definition inv_sent :: "state \<Rightarrow> bool" where
  "inv_sent s = sent_ok (loop_pc s) (trace s)"

text \<open>
  Before the \<^verbatim>\<open>select\<close> takes a case the buffer of the channel holds what has been
  sent. When it has taken the channel case, the background goroutine has made its send, the
  buffer is empty, and the value received is the value of the one send made before.
\<close>

definition inv_recv :: "state \<Rightarrow> bool" where
  "inv_recv s =
     ((stage (main_pc s) \<le> 11 \<longrightarrow> filter is_send (trace s) = map SendErrC (errC s)) \<and>
      (12 \<le> stage (main_pc s) \<longrightarrow> trigger (trace s) = Some CaseErrC \<longrightarrow>
         loop_pc s = Finished \<and> errC s = [] \<and>
         length (filter is_send (before_select (trace s))) = 1 \<and>
         filter is_select (trace s) = map recv_of (filter is_send (before_select (trace s)))))"

definition invariant :: "state \<Rightarrow> bool" where
  "invariant s =
     (inv_defers s \<and> inv_chan s \<and> inv_select s \<and> inv_trigger s \<and> inv_order s \<and> inv_report s)"

section \<open>Example surroundings and schedules\<close>

definition example_env :: env where
  "example_env =
     \<lparr>log_file = [], read_only = False, toolsets = [''registry''],
      enable_command_logging = False, HCP_TFE_TOKEN = [], HCP_TFE_ADDRESS = [],
      openFile = (\<lambda>path. if path = ''/var/log/mcp.log'' then Inr path
                          else Inl (Error ''permission denied''))\<rparr>"

definition example_cfg :: runConfig where
  "example_cfg =
     \<lparr>readOnly = False, logger = log_New, logCommands = False, enabledToolsets = [''registry'']\<rparr>"

text \<open>The foreground goroutine runs lines 135 to 187 and stands before the \<^verbatim>\<open>select\<close>.\<close>

definition startup :: "event list" where
  "startup = replicate 10 (Supervisor CaseErrC)"

text \<open>The background goroutine runs up to its call of \<^verbatim>\<open>Listen\<close>.\<close>

definition loop_starts :: "event list" where
  "loop_starts = [Background, Background]"

text \<open>The supervisor waits in the \<^verbatim>\<open>select\<close> and a signal arrives.\<close>

definition interrupted_waiting :: "event list" where
  "interrupted_waiting = startup @ [Supervisor CaseErrC] @ loop_starts @ [Interrupt]"

text \<open>
  The loop then fails with an error and writes it to the channel, before the supervisor
  runs to the end.
\<close>

definition fails_later :: "event list" where
  "fails_later =
     [ListenReturns (Some (Error ''read: file already closed'')), Background] @
     replicate 6 (Supervisor CaseErrC)"

definition sched_interrupted :: "event list" where
  "sched_interrupted = interrupted_waiting @ fails_later"


text \<open>The supervisor waits, the loop fails with a write error; the supervisor runs to the end.\<close>

definition loop_fails_waiting :: "event list" where
  "loop_fails_waiting =
     startup @ [Supervisor CaseErrC] @ loop_starts @
     [ListenReturns (Some (Error ''write: broken pipe'')), Background]"

definition sched_failed :: "event list" where
  "sched_failed = loop_fails_waiting @ replicate 6 (Supervisor CaseErrC)"

text \<open>The input is closed at once: the loop returns nil; the supervisor runs to the end.\<close>

definition closed_at_once :: "event list" where
  "closed_at_once = startup @ loop_starts @ [ListenReturns None, Background]"

definition sched_closed :: "event list" where
  "sched_closed = closed_at_once @ replicate 6 (Supervisor CaseErrC)"

text \<open>
  The loop's error is in the channel before the signal arrives, and both before the
  foreground goroutine reaches the \<^verbatim>\<open>select\<close>, which takes the cancellation.
\<close>

definition sched_both_ready :: "event list" where
  "sched_both_ready =
     startup @ loop_starts @
     [ListenReturns (Some (Error ''write: broken pipe'')), Background, Interrupt,
      Supervisor CaseCtxDone]"

text \<open>
  The signal arrives first, the loop then fails and its error is in the channel before the
  foreground goroutine reaches the \<^verbatim>\<open>select\<close>, which takes the channel case.
\<close>

definition sched_signal_first :: "event list" where
  "sched_signal_first =
     startup @ loop_starts @
     [Interrupt, ListenReturns (Some (Error ''context canceled'')), Background] @
     replicate 6 (Supervisor CaseErrC)"

text \<open>The supervisor waits in the \<^verbatim>\<open>select\<close> while the loop keeps listening.\<close>

definition sched_waiting :: "event list" where
  "sched_waiting =
     startup @ [Supervisor CaseErrC] @ loop_starts @ replicate 6 (Supervisor CaseErrC)"


section \<open>Facts about single steps\<close>

lemma exec_append: "exec cfg e (xs @ ys) s = exec cfg e ys (exec cfg e xs s)"
  by (induction xs arbitrary: s) simp_all

lemma setup_actions_cong:
  "logger cfg1 = logger cfg2 \<Longrightarrow> setup_actions cfg1 e = setup_actions cfg2 e"
  by (simp add: setup_actions_def)

lemma supervisor_step_ignores_flags:
  assumes "logger cfg1 = logger cfg2"
  shows "supervisor_step cfg1 e pick p s = supervisor_step cfg2 e pick p s"
  using assms setup_actions_cong [OF assms, of e]
  by (cases "(cfg1, e, pick, p, s)" rule: supervisor_step.cases) simp_all

lemma step_ignores_flags:
  assumes "logger cfg1 = logger cfg2" and "logCommands cfg1 = logCommands cfg2"
  shows "step cfg1 e ev s = step cfg2 e ev s"
proof (cases ev)
  case (Supervisor pick)
  then show ?thesis using supervisor_step_ignores_flags [OF assms(1)] by simp
next
  case Background
  then show ?thesis using assms by (cases "loop_pc s") simp_all
qed simp_all

lemma exec_ignores_flags:
  assumes "logger cfg1 = logger cfg2" and "logCommands cfg1 = logCommands cfg2"
  shows "exec cfg1 e sched s = exec cfg2 e sched s"
proof (induction sched arbitrary: s)
  case Nil
  show ?case by simp
next
  case (Cons ev evs)
  have "apply_event cfg1 e ev s = apply_event cfg2 e ev s"
    unfolding apply_event_def using step_ignores_flags [OF assms, of e ev s] by simp
  then show ?case using Cons.IH by simp
qed

lemma exec_invariant:
  assumes "P s"
    and "\<And>t ev t'. ev \<in> set sched \<Longrightarrow> P t \<Longrightarrow> step cfg e ev t = Some t' \<Longrightarrow> P t'"
  shows "P (exec cfg e sched s)"
  using assms
proof (induction sched arbitrary: s)
  case Nil
  then show ?case by simp
next
  case (Cons ev evs)
  have "P (apply_event cfg e ev s)"
    using Cons.prems(1) Cons.prems(2) [of ev s]
    by (cases "step cfg e ev s") (auto simp: apply_event_def)
  moreover have "P t'" if "ev' \<in> set evs" "P t" "step cfg e ev' t = Some t'" for t ev' t'
    by (rule Cons.prems(2) [of ev' t t']) (use that in simp_all)
  ultimately show ?case using Cons.IH by simp
qed

lemma supervisor_step_cases:
  assumes "supervisor_step cfg e pick (main_pc s) s = Some s'"
  obtains
    (l135) "main_pc s = L135" "s' = goto L136 (emit [Log (logger cfg) InfoLevel ''initializing analytics''] s)"
  | (l136) "main_pc s = L136" "s' = goto L140 (emit [NewSegmentAnalytics (logger cfg)] s)"
  | (l140) "main_pc s = L140" "s' = goto L146 (emit [Track ''mcp_server_started''] s)"
  | (l146) "main_pc s = L146" "s' = goto L148 (s\<lparr>defers := DeferClose # defers s\<rparr>)"
  | (l148) "main_pc s = L148"
      "s' = goto L150 (emit [NotifyContext] (s\<lparr>listener := True, defers := DeferStop # defers s\<rparr>))"
  | (l150) "main_pc s = L150" "s' = goto L169 (emit (setup_actions cfg e) s)"
  | (l169) "main_pc s = L169" "s' = goto L174 (emit [NewStdioServer, SetErrorLogger (logger cfg)] s)"
  | (l174) "main_pc s = L174" "s' = goto L175 (emit [MakeChan 1] (s\<lparr>errC_cap := 1, errC := []\<rparr>))"
  | (l175) "main_pc s = L175" "s' = goto L187 (emit [Go] (s\<lparr>loop_pc := B176\<rparr>))"
  | (l187) "main_pc s = L187"
      "s' = goto L190 (emit [Stderr ''HCP Terraform MCP Server running on stdio\<newline>''] s)"
  | (select_done) "main_pc s = L190" "ctx_done s" "errC s = [] \<or> pick = CaseCtxDone"
      "s' = goto L192 (emit [SelectDone] s)"
  | (select_park) "main_pc s = L190" "\<not> ctx_done s" "errC s = []"
      "s' = goto Parked (emit [SelectBlocked] s)"
  | (select_recv) r rs where "main_pc s = L190" "errC s = r # rs" "\<not> (ctx_done s \<and> pick = CaseCtxDone)"
      "s' = goto (L194 r) (emit [SelectRecv r] (s\<lparr>errC := rs\<rparr>))"
  | (l192) "main_pc s = L192"
      "s' = goto (Returning None) (emit [Log (logger cfg) InfoLevel ''shutting down server...''] s)"
  | (l194) r where "main_pc s = L194 r"
      "s' = goto (Returning (map_option (Errorf ''error running server: '') r)) s"
  | (run_stop) r ds where "main_pc s = Returning r" "defers s = DeferStop # ds"
      "s' = emit [Stop] (s\<lparr>defers := ds, listener := False, ctx_done := True\<rparr>)"
  | (run_close) r ds where "main_pc s = Returning r" "defers s = DeferClose # ds"
      "s' = emit [Close] (s\<lparr>defers := ds\<rparr>)"
  | (return) r where "main_pc s = Returning r" "defers s = []"
      "s' = goto (Returned r) (emit [Return r] s)"
  | (exit0) "main_pc s = Returned None" "s' = goto (Exited 0) (emit [Exit 0] s)"
  | (exit1) err where "main_pc s = Returned (Some err)"
      "s' = goto (Exited 1) (emit [Fatal ''failed to run stdio server:'' err, Exit 1] s)"
proof (cases "main_pc s")
  case L190
  then show ?thesis
    using assms select_done select_park select_recv
    by (cases "errC s"; cases "ctx_done s"; cases pick) (auto simp: select_poll_def)
next
  case (L194 r)
  then show ?thesis using assms l194 by (cases r) auto
next
  case (Returning r)
  show ?thesis
  proof (cases "defers s")
    case Nil
    then show ?thesis using assms Returning return by simp
  next
    case (Cons d ds)
    then show ?thesis using assms Returning run_stop run_close by (cases d) (auto simp: emit_def)
  qed
next
  case (Returned r)
  then show ?thesis using assms exit0 exit1 by (cases r) auto
qed (use assms in \<open>auto intro: that\<close>)


lemma step_cases:
  assumes "step cfg e ev s = Some s'"
  obtains
    (supervisor) pick where "ev = Supervisor pick" "supervisor_step cfg e pick (main_pc s) s = Some s'"
  | (wrap_io) "ev = Background" "\<not> exited (main_pc s)" "loop_pc s = B176"
      "s' = (if logCommands cfg then emit [NewIOLogger (logger cfg)] (s\<lparr>loop_pc := B183 True\<rparr>)
             else s\<lparr>loop_pc := B183 False\<rparr>)"
  | (listen) tapped where "ev = Background" "\<not> exited (main_pc s)" "loop_pc s = B183 tapped"
      "s' = emit [Listen tapped] (s\<lparr>loop_pc := Listening\<rparr>)"
  | (handoff) r where "ev = Background" "loop_pc s = Sending r" "main_pc s = Parked"
      "s' = goto (L194 r) (emit [SendErrC r, SelectRecv r] (s\<lparr>loop_pc := Finished\<rparr>))"
  | (buffer) r where "ev = Background" "\<not> exited (main_pc s)" "loop_pc s = Sending r"
      "main_pc s \<noteq> Parked" "length (errC s) < errC_cap s"
      "s' = emit [SendErrC r] (s\<lparr>loop_pc := Finished, errC := errC s @ [r]\<rparr>)"
  | (listen_returns) r where "ev = ListenReturns r" "\<not> exited (main_pc s)" "loop_pc s = Listening"
      "s' = emit [ListenReturned r] (s\<lparr>loop_pc := Sending r\<rparr>)"
  | (wake) "ev = Interrupt" "listener s" "main_pc s = Parked"
      "s' = goto L192 (emit [Signal, SelectDone] (s\<lparr>ctx_done := True\<rparr>))"
  | (signal) "ev = Interrupt" "\<not> exited (main_pc s)" "listener s" "main_pc s \<noteq> Parked"
      "s' = emit [Signal] (s\<lparr>ctx_done := True\<rparr>)"
proof (cases ev)
  case (Supervisor pick)
  then show ?thesis using assms supervisor by simp
next
  case Background
  then show ?thesis
    using assms wrap_io listen handoff buffer
    by (cases "loop_pc s") (auto simp: send_errC_def split: if_splits)
next
  case (ListenReturns r)
  then show ?thesis
    using assms listen_returns by (auto simp: listen_returns_def split: if_splits)
next
  case Interrupt
  then show ?thesis
    using assms wake signal by (auto simp: interrupt_def split: if_splits)
qed


lemma setup_actions_plain [simp]:
  "count_list (setup_actions cfg e) Close = 0"
  "filter is_return (setup_actions cfg e) = []"
  "filter is_select (setup_actions cfg e) = []"
  "filter is_send (setup_actions cfg e) = []"
  by (simp_all add: setup_actions_def)

lemma before_return_append:
  "before_return (xs @ ys) =
     (if filter is_return xs = [] then xs @ before_return ys else before_return xs)"
  unfolding before_return_def by (induction xs) simp_all

lemma before_return_simps [simp]:
  "before_return [] = []"
  "before_return (a # as) = (if is_return a then [] else a # before_return as)"
  by (simp_all add: before_return_def)

lemma count_list_one_mem: "count_list xs a = Suc 0 \<Longrightarrow> a \<in> set xs"
  by (metis count_notin zero_neq_one One_nat_def)

lemma inv_defers_step:
  assumes "inv_defers s" and "step cfg e ev s = Some s'"
  shows "inv_defers s'"
  using assms(2)
proof (cases rule: step_cases)
  case (supervisor pick)
  from supervisor(2) show ?thesis
    using assms(1)
    by (cases rule: supervisor_step_cases)
      (auto simp: inv_defers_def emit_def goto_def before_return_append dest: count_list_one_mem)
qed (use assms(1) in \<open>simp_all add: inv_defers_def emit_def goto_def before_return_append\<close>)

lemma inv_chan_step:
  assumes "inv_chan s" and "step cfg e ev s = Some s'"
  shows "inv_chan s'"
  using assms(2)
proof (cases rule: step_cases)
  case (supervisor pick)
  from supervisor(2) show ?thesis
    using assms(1)
    by (cases rule: supervisor_step_cases) (simp_all add: inv_chan_def emit_def goto_def)
qed (use assms(1) in \<open>simp_all add: inv_chan_def emit_def goto_def\<close>)


lemma trigger_append:
  "trigger (xs @ ys) = (case trigger xs of None \<Rightarrow> trigger ys | Some c \<Rightarrow> Some c)"
  by (induction xs rule: trigger.induct) simp_all

lemma trigger_None_iff: "(trigger tr = None) = (filter is_select tr = [])"
  by (induction tr rule: trigger.induct) simp_all

lemma first_event_append:
  "first_event (xs @ ys) = (case first_event xs of None \<Rightarrow> first_event ys | Some c \<Rightarrow> Some c)"
  by (induction xs rule: first_event.induct) simp_all

lemma first_event_None_iff:
  "(first_event tr = None) = (Signal \<notin> set tr \<and> filter is_send tr = [])"
  by (induction tr rule: first_event.induct) simp_all

lemma before_select_append:
  "before_select (xs @ ys) = (if trigger xs = None then xs @ before_select ys else before_select xs)"
  unfolding before_select_def
  by (induction xs rule: trigger.induct) simp_all

lemma precedes_append:
  "precedes a b (xs @ ys) = (precedes a b xs \<and> (a \<in> set xs \<or> precedes a b ys))"
  by (induction xs) auto

lemma setup_actions_quiet [simp]:
  "Signal \<notin> set (setup_actions cfg e)"
  "SelectBlocked \<notin> set (setup_actions cfg e)"
  "SelectDone \<notin> set (setup_actions cfg e)"
  "trigger (setup_actions cfg e) = None"
  "first_event (setup_actions cfg e) = None"
  "before_select (setup_actions cfg e) = setup_actions cfg e"
  "precedes a Go (setup_actions cfg e)"
  "precedes a (Listen b) (setup_actions cfg e)"
  by (simp_all add: setup_actions_def before_select_def)

lemma inv_order_step:
  assumes "inv_order s" and "step cfg e ev s = Some s'"
  shows "inv_order s'"
  using assms(2)
proof (cases rule: step_cases)
  case (supervisor pick)
  from supervisor(2) show ?thesis
    using assms(1)
    by (cases rule: supervisor_step_cases)
      (simp_all add: inv_order_def emit_def goto_def precedes_append)
qed (use assms(1) in \<open>simp_all add: inv_order_def emit_def goto_def precedes_append\<close>)


lemma outcome_ok_early: "stage p \<le> 11 \<Longrightarrow> outcome_ok sel p = (sel = [])"
  by (cases p) (auto simp: outcome_ok_def split: list.splits action.splits)

lemma outcome_ok_late: "outcome_ok sel p \<Longrightarrow> 12 \<le> stage p \<Longrightarrow> sel \<noteq> []"
  by (auto simp: outcome_ok_def)

lemma outcome_ok_chain:
  "outcome_ok sel L192 \<Longrightarrow> outcome_ok sel (Returning None)"
  "outcome_ok sel (L194 r) \<Longrightarrow> outcome_ok sel (Returning (map_option (Errorf ''error running server: '') r))"
  "outcome_ok sel (Returning r') \<Longrightarrow> outcome_ok sel (Returned r')"
  "outcome_ok sel (Returned None) \<Longrightarrow> outcome_ok sel (Exited 0)"
  "outcome_ok sel (Returned (Some err)) \<Longrightarrow> outcome_ok sel (Exited 1)"
proof -
  have c: "clean (Returning r') \<Longrightarrow> clean (Returned r')" for r'
    by (cases r') simp_all
  show "outcome_ok sel L192 \<Longrightarrow> outcome_ok sel (Returning None)"
    by (auto simp: outcome_ok_def split: list.splits action.splits)
  show "outcome_ok sel (L194 r) \<Longrightarrow>
      outcome_ok sel (Returning (map_option (Errorf ''error running server: '') r))"
    by (auto simp: outcome_ok_def split: list.splits action.splits)
  show "outcome_ok sel (Returning r') \<Longrightarrow> outcome_ok sel (Returned r')"
    using c by (auto simp: outcome_ok_def split: list.splits action.splits)
  show "outcome_ok sel (Returned None) \<Longrightarrow> outcome_ok sel (Exited 0)"
    by (auto simp: outcome_ok_def split: list.splits action.splits)
  show "outcome_ok sel (Returned (Some err)) \<Longrightarrow> outcome_ok sel (Exited 1)"
    by (auto simp: outcome_ok_def split: list.splits action.splits)
qed

lemma outcome_ok_new [simp]:
  "outcome_ok [SelectDone] L192"
  "outcome_ok [SelectRecv r] (L194 r)"
  by (simp_all add: outcome_ok_def)

lemma inv_select_step:
  assumes "inv_select s" and "step cfg e ev s = Some s'"
  shows "inv_select s'"
  using assms(2)
proof (cases rule: step_cases)
  case (supervisor pick)
  from supervisor(2) show ?thesis
    using assms(1)
    by (cases rule: supervisor_step_cases)
      (auto simp: inv_select_def emit_def goto_def outcome_ok_early dest: outcome_ok_chain)
qed (use assms(1) in \<open>simp_all add: inv_select_def emit_def goto_def outcome_ok_early\<close>)


lemma before_select_simps [simp]:
  "before_select [] = []"
  "before_select (a # as) = (if is_select a then [] else a # before_select as)"
  by (simp_all add: before_select_def)

lemma parked_no_event:
  assumes "inv_trigger s" and "inv_chan s" and "main_pc s = Parked"
  shows "first_event (trace s) = None" and "trigger (trace s) = None"
proof -
  have "loop_pc s \<noteq> Finished" "\<not> ctx_done s"
    using assms(2,3) by (auto simp: inv_chan_def)
  then have "filter is_send (trace s) = []" "Signal \<notin> set (trace s)"
    using assms by (auto simp: inv_chan_def inv_trigger_def)
  then show "first_event (trace s) = None" by (simp add: first_event_None_iff)
  show "trigger (trace s) = None" using assms(1,3) by (simp add: inv_trigger_def)
qed

lemma inv_trigger_step:
  assumes "inv_trigger s" and "inv_chan s" and "step cfg e ev s = Some s'"
  shows "inv_trigger s'"
  using assms(3)
proof (cases rule: step_cases)
  case (supervisor pick)
  from supervisor(2) show ?thesis
    using assms(1,2)
    by (cases rule: supervisor_step_cases)
      (auto simp: inv_trigger_def inv_chan_def emit_def goto_def trigger_append
        first_event_append before_select_append split: option.splits)
next
  case (handoff r)
  then show ?thesis
    using parked_no_event [OF assms(1,2)]
    by (simp add: inv_trigger_def emit_def goto_def trigger_append
        first_event_append before_select_append)
next
  case wake
  then show ?thesis
    using parked_no_event [OF assms(1,2)]
    by (simp add: inv_trigger_def emit_def goto_def trigger_append
        first_event_append before_select_append)
qed (use assms(1) in \<open>auto simp: inv_trigger_def emit_def goto_def trigger_append
        first_event_append before_select_append split: option.splits\<close>)


lemma listen_results_append:
  "listen_results (xs @ ys) = listen_results xs @ listen_results ys"
  by (induction xs rule: listen_results.induct) simp_all

lemma setup_actions_silent [simp]: "listen_results (setup_actions cfg e) = []"
  by (simp add: setup_actions_def)

lemma sent_ok_append [simp]:
  "listen_results as = [] \<Longrightarrow> filter is_send as = [] \<Longrightarrow> sent_ok p (tr @ as) = sent_ok p tr"
  by (cases p) (simp_all add: listen_results_append)

lemma inv_sent_step:
  assumes "inv_sent s" and "inv_chan s" and "step cfg e ev s = Some s'"
  shows "inv_sent s'"
  using assms(3)
proof (cases rule: step_cases)
  case (supervisor pick)
  have ns: "loop_pc s = NotSpawned" if "stage (main_pc s) \<le> 8"
    using assms(2) that by (simp add: inv_chan_def)
  from supervisor(2) show ?thesis
    using assms(1) ns
    by (cases rule: supervisor_step_cases)
      (simp_all add: inv_sent_def emit_def goto_def listen_results_append)
qed (use assms(1) in \<open>simp_all add: inv_sent_def emit_def goto_def listen_results_append\<close>)

lemma trigger_stable:
  "trigger tr \<noteq> None \<Longrightarrow> trigger (tr @ as) = trigger tr"
  "trigger tr \<noteq> None \<Longrightarrow> before_select (tr @ as) = before_select tr"
  by (auto simp: trigger_append before_select_append)

lemma trigger_fresh:
  "trigger tr = None \<Longrightarrow> trigger (tr @ as) = trigger as"
  "trigger tr = None \<Longrightarrow> before_select (tr @ as) = tr @ before_select as"
  "trigger tr = None \<Longrightarrow> filter is_select tr = []"
  using trigger_None_iff [of tr] by (simp_all add: trigger_append before_select_append)

lemma inv_recv_step:
  assumes "inv_recv s" and "inv_chan s" and "inv_trigger s" and "step cfg e ev s = Some s'"
  shows "inv_recv s'"
proof -
  have c1: "errC s = []" if "stage (main_pc s) \<le> 8"
    using assms(2) that by (simp add: inv_chan_def)
  have c2: "rs = [] \<and> loop_pc s = Finished" if "errC s = r # rs" for r rs
    using assms(2) that by (auto simp: inv_chan_def)
  have tn: "trigger (trace s) = None" if "stage (main_pc s) \<le> 11"
    using assms(3) that by (simp add: inv_trigger_def)
  have ts: "trigger (trace s) \<noteq> None" if "12 \<le> stage (main_pc s)"
    using assms(3) that by (simp add: inv_trigger_def)
  from assms(4) show ?thesis
  proof (cases rule: step_cases)
    case (supervisor pick)
    from supervisor(2) show ?thesis
      using assms(1) c1 c2 tn ts
      by (cases rule: supervisor_step_cases)
        (simp_all add: inv_recv_def emit_def goto_def trigger_stable trigger_fresh)
  next
    case (handoff r)
    then show ?thesis
      using assms(1) assms(2) tn
      by (simp add: inv_recv_def inv_chan_def emit_def goto_def trigger_fresh)
  next
    case wake
    then show ?thesis
      using tn by (simp add: inv_recv_def emit_def goto_def trigger_fresh)
  qed (use assms(1) tn ts in
      \<open>simp_all add: inv_recv_def emit_def goto_def trigger_stable trigger_fresh\<close>)
qed

lemma result_of_append [simp]: "filter is_select as = [] \<Longrightarrow> result_of (tr @ as) = result_of tr"
  by (simp add: result_of_def)

lemma outcome_result:
  "outcome_ok (filter is_select tr) (Returning r) \<Longrightarrow> result_of tr = r"
  "outcome_ok (filter is_select tr) (Returned r) \<Longrightarrow> result_of tr = r"
  by (cases r; auto simp: outcome_ok_def result_of_def split: list.splits action.splits)+

lemma inv_report_step:
  assumes "inv_report s" and "inv_select s" and "step cfg e ev s = Some s'"
  shows "inv_report s'"
  using assms(3)
proof (cases rule: step_cases)
  case (supervisor pick)
  from supervisor(2) show ?thesis
    using assms(1,2)
    by (cases rule: supervisor_step_cases)
      (auto simp: inv_report_def inv_select_def emit_def goto_def dest: outcome_result)
qed (use assms(1) in \<open>simp_all add: inv_report_def emit_def goto_def\<close>)

lemma inv_nil_step:
  assumes "inv_nil s" and "returns_nil ev" and "step cfg e ev s = Some s'"
  shows "inv_nil s'"
  using assms(3)
proof (cases rule: step_cases)
  case (supervisor pick)
  from supervisor(2) show ?thesis
    using assms(1)
    by (cases rule: supervisor_step_cases) (simp_all add: inv_nil_def emit_def goto_def)
next
  case (listen_returns r)
  then show ?thesis
    using assms(1,2) by (simp add: inv_nil_def emit_def)
qed (use assms(1) in \<open>simp_all add: inv_nil_def emit_def goto_def\<close>)

lemma inv_quiet_step:
  assumes "inv_quiet s" and "no_interrupt ev" and "step cfg e ev s = Some s'"
  shows "inv_quiet s'"
  using assms(3)
proof (cases rule: step_cases)
  case (supervisor pick)
  from supervisor(2) show ?thesis
    using assms(1)
    by (cases rule: supervisor_step_cases) (simp_all add: inv_quiet_def emit_def goto_def)
qed (use assms(1,2) in \<open>simp_all add: inv_quiet_def emit_def goto_def\<close>)

lemma invariant_init: "invariant init"
  by (simp add: invariant_def init_def inv_defers_def inv_chan_def inv_select_def
      inv_trigger_def inv_order_def inv_report_def outcome_ok_def)

lemma invariant_step:
  assumes "invariant s" and "step cfg e ev s = Some s'"
  shows "invariant s'"
proof -
  have i: "inv_defers s" "inv_chan s" "inv_select s" "inv_trigger s" "inv_order s" "inv_report s"
    using assms(1) by (simp_all add: invariant_def)
  note st = assms(2)
  show ?thesis
    unfolding invariant_def
    using inv_defers_step [OF i(1) st] inv_chan_step [OF i(2) st] inv_select_step [OF i(3) st]
      inv_trigger_step [OF i(4) i(2) st] inv_order_step [OF i(5) st]
      inv_report_step [OF i(6) i(3) st]
    by simp
qed

lemma invariant_exec: "invariant s \<Longrightarrow> invariant (exec cfg e sched s)"
  by (rule exec_invariant) (auto intro: invariant_step)

lemma invariant_run: "invariant (runStdioServer cfg e sched)"
  unfolding runStdioServer_def by (rule invariant_exec) (rule invariant_init)


lemma step_trace:
  assumes "step cfg e ev s = Some s'"
  shows "\<exists>as. trace s' = trace s @ as"
  using assms
proof (cases rule: step_cases)
  case (supervisor pick)
  from supervisor(2) show ?thesis
    by (cases rule: supervisor_step_cases) (simp_all add: emit_def goto_def)
qed (simp_all add: emit_def goto_def)

lemma exec_trace: "\<exists>as. trace (exec cfg e sched s) = trace s @ as"
proof (rule exec_invariant [where P = "\<lambda>t. \<exists>as. trace t = trace s @ as"])
  show "\<exists>as. trace s = trace s @ as" by simp
next
  fix t ev t'
  assume "\<exists>as. trace t = trace s @ as" and "step cfg e ev t = Some t'"
  then show "\<exists>as. trace t' = trace s @ as"
    using step_trace [of cfg e ev t t'] by auto
qed

text \<open>Progress of the foreground goroutine once nothing blocks it.\<close>

lemma unblocked_step:
  assumes "unblocked s" and "step cfg e ev s = Some s'"
  shows "unblocked s' \<and>
         to_exit (main_pc s') (length (defers s')) =
           to_exit (main_pc s) (length (defers s)) - (if is_supervisor ev then 1 else 0) \<and>
         to_return (main_pc s') (length (defers s')) =
           to_return (main_pc s) (length (defers s)) - (if is_supervisor ev then 1 else 0)"
  using assms(2)
proof (cases rule: step_cases)
  case (supervisor pick)
  from supervisor(2) show ?thesis
    using assms(1) supervisor(1)
    by (cases rule: supervisor_step_cases) (auto simp: emit_def goto_def unblocked_def)
qed (use assms(1) in \<open>auto simp: emit_def goto_def unblocked_def split: spc.splits\<close>)

lemma unblocked_apply:
  assumes "unblocked s"
  shows "unblocked (apply_event cfg e ev s) \<and>
         to_exit (main_pc (apply_event cfg e ev s)) (length (defers (apply_event cfg e ev s))) =
           to_exit (main_pc s) (length (defers s)) - (if is_supervisor ev then 1 else 0) \<and>
         to_return (main_pc (apply_event cfg e ev s)) (length (defers (apply_event cfg e ev s))) =
           to_return (main_pc s) (length (defers s)) - (if is_supervisor ev then 1 else 0)"
proof (cases "step cfg e ev s")
  case None
  show ?thesis
  proof (cases ev)
    case (Supervisor pick)
    then have "supervisor_step cfg e pick (main_pc s) s = None" using None by simp
    then have "main_pc s = Parked \<or> exited (main_pc s)"
      by (cases "(cfg, e, pick, main_pc s, s)" rule: supervisor_step.cases)
        (auto split: list.splits)
    then show ?thesis
      using assms None by (cases "main_pc s") (auto simp: apply_event_def unblocked_def)
  qed (use assms None in \<open>simp_all add: apply_event_def\<close>)
next
  case (Some s')
  then show ?thesis using unblocked_step [OF assms Some] by (simp add: apply_event_def)
qed

lemma unblocked_exec:
  assumes "unblocked s"
  shows "unblocked (exec cfg e evs s) \<and>
         to_exit (main_pc (exec cfg e evs s)) (length (defers (exec cfg e evs s))) =
           to_exit (main_pc s) (length (defers s)) - supervisor_turns evs \<and>
         to_return (main_pc (exec cfg e evs s)) (length (defers (exec cfg e evs s))) =
           to_return (main_pc s) (length (defers s)) - supervisor_turns evs"
  using assms
proof (induction evs arbitrary: s)
  case Nil
  then show ?case by (simp add: supervisor_turns_def)
next
  case (Cons ev evs)
  from unblocked_apply [OF Cons.prems, of cfg e ev] Cons.IH [of "apply_event cfg e ev s"]
  show ?case by (simp add: supervisor_turns_def)
qed

lemma unblocked_done:
  assumes "unblocked s"
  shows "to_exit (main_pc s) d = 0 \<Longrightarrow> exited (main_pc s)"
    and "to_return (main_pc s) d = 0 \<Longrightarrow> returned (main_pc s)"
  using assms by (cases "main_pc s"; simp add: unblocked_def)+

lemma reaches_exit:
  assumes "unblocked s" and "to_exit (main_pc s) (length (defers s)) \<le> supervisor_turns evs"
  shows "exited (main_pc (exec cfg e evs s))"
proof -
  have "unblocked (exec cfg e evs s)"
    and "to_exit (main_pc (exec cfg e evs s)) (length (defers (exec cfg e evs s))) = 0"
    using unblocked_exec [OF assms(1), of cfg e evs] assms(2) by simp_all
  then show ?thesis by (rule unblocked_done(1))
qed

lemma reaches_return:
  assumes "unblocked s" and "to_return (main_pc s) (length (defers s)) \<le> supervisor_turns evs"
  shows "returned (main_pc (exec cfg e evs s))"
proof -
  have "unblocked (exec cfg e evs s)"
    and "to_return (main_pc (exec cfg e evs s)) (length (defers (exec cfg e evs s))) = 0"
    using unblocked_exec [OF assms(1), of cfg e evs] assms(2) by simp_all
  then show ?thesis by (rule unblocked_done(2))
qed

lemma shutting_down_bound:
  assumes "inv_defers s" and "12 \<le> stage (main_pc s)"
  shows "unblocked s" and "to_return (main_pc s) (length (defers s)) \<le> 4"
    and "to_exit (main_pc s) (length (defers s)) \<le> 5"
  using assms by (cases "main_pc s"; auto simp: inv_defers_def unblocked_def)+

section \<open>Facts about runs\<close>

lemma run_later:
  "exec cfg e later (runStdioServer cfg e sched) = runStdioServer cfg e (sched @ later)"
  by (simp add: runStdioServer_def exec_append)

lemma invariant_later: "invariant (exec cfg e later (runStdioServer cfg e sched))"
  using invariant_run [of cfg e "sched @ later"] by (simp add: run_later)

lemma selected_unique:
  assumes "inv_select s" and "a \<in> set (trace s)" and "is_select a"
  shows "filter is_select (trace s) = [a]"
proof -
  have "a \<in> set (filter is_select (trace s))" using assms(2,3) by simp
  moreover have "length (filter is_select (trace s)) \<le> 1"
    using assms(1) by (auto simp: inv_select_def outcome_ok_def split: list.splits)
  ultimately show ?thesis
    by (cases "filter is_select (trace s)") auto
qed

lemma selected_stage:
  assumes "inv_select s" and "filter is_select (trace s) \<noteq> []"
  shows "12 \<le> stage (main_pc s)"
proof (rule ccontr)
  assume "\<not> 12 \<le> stage (main_pc s)"
  then have "stage (main_pc s) \<le> 11" by simp
  then show False using assms outcome_ok_early by (simp add: inv_select_def)
qed

lemma trigger_selected:
  "trigger tr = Some CaseCtxDone \<Longrightarrow> SelectDone \<in> set tr"
  "trigger tr = Some CaseErrC \<Longrightarrow> \<exists>r. SelectRecv r \<in> set tr"
  by (induction tr rule: trigger.induct) auto

lemma unblocked_bound:
  assumes "inv_defers s" and "unblocked s"
  shows "to_return (main_pc s) (length (defers s)) \<le> 5"
    and "to_exit (main_pc s) (length (defers s)) \<le> 6"
  using assms by (cases "main_pc s"; auto simp: inv_defers_def unblocked_def)+

lemma inv_nil_run:
  assumes "list_all returns_nil sched"
  shows "inv_nil (runStdioServer cfg e sched)"
  unfolding runStdioServer_def
proof (rule exec_invariant)
  show "inv_nil init" by (simp add: inv_nil_def init_def)
next
  fix t ev t'
  assume "ev \<in> set sched" and "inv_nil t" and "step cfg e ev t = Some t'"
  moreover have "returns_nil ev" using assms \<open>ev \<in> set sched\<close> by (simp add: list_all_iff)
  ultimately show "inv_nil t'" using inv_nil_step by blast
qed

lemma inv_quiet_run:
  assumes "list_all no_interrupt sched"
  shows "inv_quiet (runStdioServer cfg e sched)"
  unfolding runStdioServer_def
proof (rule exec_invariant)
  show "inv_quiet init" by (simp add: inv_quiet_def init_def)
next
  fix t ev t'
  assume "ev \<in> set sched" and "inv_quiet t" and "step cfg e ev t = Some t'"
  moreover have "no_interrupt ev" using assms \<open>ev \<in> set sched\<close> by (simp add: list_all_iff)
  ultimately show "inv_quiet t'" using inv_quiet_step by blast
qed

lemma inv_nil_finished_step:
  assumes "inv_nil s \<and> loop_pc s = Finished \<and> 9 \<le> stage (main_pc s)"
    and "step cfg e ev s = Some s'"
  shows "inv_nil s' \<and> loop_pc s' = Finished \<and> 9 \<le> stage (main_pc s')"
  using assms(2)
proof (cases rule: step_cases)
  case (supervisor pick)
  from supervisor(2) show ?thesis
    using assms(1)
    by (cases rule: supervisor_step_cases) (simp_all add: inv_nil_def emit_def goto_def)
qed (use assms(1) in \<open>simp_all add: inv_nil_def emit_def goto_def\<close>)

lemma nil_received:
  assumes "inv_select s" and "inv_nil s" and "inv_quiet s" and "12 \<le> stage (main_pc s)"
  shows "SelectRecv None \<in> set (trace s)"
proof -
  have ne: "filter is_select (trace s) \<noteq> []"
    using assms(1,4) outcome_ok_late by (auto simp: inv_select_def)
  then obtain a where fa: "filter is_select (trace s) = [a]"
    using assms(1) by (auto simp: inv_select_def outcome_ok_def split: list.splits)
  then have "a \<in> set (filter is_select (trace s))" by simp
  then have mem: "a \<in> set (trace s)" and sel: "is_select a" by simp_all
  have "a \<noteq> SelectDone" using mem assms(3) by (auto simp: inv_quiet_def)
  then obtain r where a: "a = SelectRecv r" using sel by (cases a) simp_all
  have "after_recv r (main_pc s)"
    using assms(1) fa a by (simp add: inv_select_def outcome_ok_def)
  then have "r = None"
    using assms(2) by (cases "main_pc s") (auto simp: inv_nil_def split: if_splits)
  then show ?thesis using mem a by simp
qed

lemma more_invariants_run:
  "inv_sent (runStdioServer cfg e sched) \<and> inv_recv (runStdioServer cfg e sched)"
proof -
  have "invariant (runStdioServer cfg e sched) \<and> inv_sent (runStdioServer cfg e sched) \<and>
        inv_recv (runStdioServer cfg e sched)"
    unfolding runStdioServer_def
  proof (rule exec_invariant [where P = "\<lambda>t. invariant t \<and> inv_sent t \<and> inv_recv t"])
    show "invariant init \<and> inv_sent init \<and> inv_recv init"
      using invariant_init by (simp add: inv_sent_def inv_recv_def init_def)
  next
    fix t ev t'
    assume a: "invariant t \<and> inv_sent t \<and> inv_recv t" and st: "step cfg e ev t = Some t'"
    then have i: "inv_chan t" "inv_trigger t" by (simp_all add: invariant_def)
    show "invariant t' \<and> inv_sent t' \<and> inv_recv t'"
      using a invariant_step [OF _ st] inv_sent_step [OF _ i(1) st] inv_recv_step [OF _ i(1,2) st]
      by simp
  qed
  then show ?thesis by simp
qed

lemma sends_before_select:
  assumes "length (filter is_send tr) \<le> 1" and "filter is_send (before_select tr) = [a]"
  shows "filter is_send tr = [a]"
proof -
  have "tr = before_select tr @ dropWhile (\<lambda>a. \<not> is_select a) tr"
    by (simp add: before_select_def)
  then have "filter is_send tr =
      filter is_send (before_select tr) @ filter is_send (dropWhile (\<lambda>a. \<not> is_select a) tr)"
    by (metis filter_append)
  then show ?thesis using assms by (cases "filter is_send (dropWhile (\<lambda>a. \<not> is_select a) tr)") auto
qed

lemma trigger_of_recv: "filter is_select tr = [SelectRecv r] \<Longrightarrow> trigger tr = Some CaseErrC"
  by (induction tr rule: trigger.induct) (auto split: if_splits)

lemma recv_of_send: "is_send a \<Longrightarrow> recv_of a = SelectRecv r \<Longrightarrow> a = SendErrC r"
  by (cases a) simp_all

section \<open>Facts about the tap\<close>

lemma record_bytes_inner [simp]: "inner (record_bytes rc d bs t) = inner t"
  by (simp add: record_bytes_def case_prod_unfold)

lemma tap_read_result:
  "fst (tap_read rc rd n t) = fst (rd n (inner t))"
  "inner (snd (tap_read rc rd n t)) = snd (rd n (inner t))"
  by (simp_all add: tap_read_def case_prod_unfold)

lemma tap_write_result:
  "fst (tap_write rc wr bs t) = fst (wr bs (inner t))"
  "inner (snd (tap_write rc wr bs t)) = snd (wr bs (inner t))"
  by (simp_all add: tap_write_def case_prod_unfold)

lemma tap_transparent:
  "fst (run_client (tap_read rc rd) (tap_write rc wr) loop t) = fst (run_client rd wr loop (inner t)) \<and>
   inner (snd (run_client (tap_read rc rd) (tap_write rc wr) loop t)) =
     snd (run_client rd wr loop (inner t))"
proof (induction loop arbitrary: t)
  case (Finish r)
  show ?case by simp
next
  case (Read n k)
  have ih: "fst (run_client (tap_read rc rd) (tap_write rc wr) (k x) u) =
              fst (run_client rd wr (k x) (inner u))"
    "inner (snd (run_client (tap_read rc rd) (tap_write rc wr) (k x) u)) =
              snd (run_client rd wr (k x) (inner u))" for x u
    using Read.IH [of "k x" u] by simp_all
  show ?case by (simp add: case_prod_unfold tap_read_result ih)
next
  case (Write bs k)
  have ih: "fst (run_client (tap_read rc rd) (tap_write rc wr) (k x) u) =
              fst (run_client rd wr (k x) (inner u))"
    "inner (snd (run_client (tap_read rc rd) (tap_write rc wr) (k x) u)) =
              snd (run_client rd wr (k x) (inner u))" for x u
    using Write.IH [of "k x" u] by simp_all
  show ?case by (simp add: case_prod_unfold tap_write_result ih)
qed

lemma tap_records_example:
  "run_client (tap_read list_recorder pipe_read) (tap_write list_recorder pipe_write) echo_once
     \<lparr>inner = \<lparr>incoming = ''ping'', outgoing = [], peer_gone = False\<rparr>, sink = [], warnings = 0\<rparr> =
   ((None, [ReadResult ''ping'' None, WriteResult 4 None]),
    \<lparr>inner = \<lparr>incoming = [], outgoing = ''ping'', peer_gone = False\<rparr>,
     sink = [(Inbound, ''ping''), (Outbound, ''ping'')], warnings = 0\<rparr>)"
  by code_simp

section \<open>The claims\<close>

text \<open>
  C1. In every run of the supervisor \<^verbatim>\<open>analytics.Close\<close> is called at most once.
  Once \<open>runStdioServer\<close> has returned it has been called exactly once, and before the
  return. From a state in which the \<^verbatim>\<open>select\<close> has taken a case, be it the
  cancellation or the loop's result, four statements of the foreground goroutine's own
  are enough for it to return, whatever the other goroutine and the environment do or do
  not do in between: it waits for nothing on the path that did not trigger the shutdown.
\<close>

theorem close_exactly_once:
  "count_list (trace (runStdioServer cfg e sched)) Close \<le> 1 \<and>
   (returned (main_pc (runStdioServer cfg e sched)) \<longrightarrow>
      count_list (trace (runStdioServer cfg e sched)) Close = 1 \<and>
      Close \<in> set (before_return (trace (runStdioServer cfg e sched)))) \<and>
   (shutting_down (main_pc (runStdioServer cfg e sched)) \<and> 4 \<le> supervisor_turns later \<longrightarrow>
      returned (main_pc (exec cfg e later (runStdioServer cfg e sched))) \<and>
      count_list (trace (exec cfg e later (runStdioServer cfg e sched))) Close = 1)"
proof -
  let ?s = "runStdioServer cfg e sched"
  have d: "inv_defers ?s" using invariant_run [of cfg e sched] by (simp add: invariant_def)
  have once: "count_list (trace t) Close = 1" if "inv_defers t" "returned (main_pc t)" for t
    using that by (cases "main_pc t") (simp_all add: inv_defers_def)
  have a: "count_list (trace ?s) Close \<le> 1" using d by (simp add: inv_defers_def)
  have b: "count_list (trace ?s) Close = 1 \<and> Close \<in> set (before_return (trace ?s))"
    if "returned (main_pc ?s)"
    using once [OF d that] d that by (simp add: inv_defers_def)
  have c: "returned (main_pc (exec cfg e later ?s)) \<and>
           count_list (trace (exec cfg e later ?s)) Close = 1"
    if "shutting_down (main_pc ?s)" and "4 \<le> supervisor_turns later"
  proof -
    have "12 \<le> stage (main_pc ?s)" using that(1) by (cases "main_pc ?s") simp_all
    from shutting_down_bound(1,2) [OF d this] that(2)
    have r: "returned (main_pc (exec cfg e later ?s))" by (intro reaches_return) simp_all
    have "inv_defers (exec cfg e later ?s)"
      using invariant_run [of cfg e "sched @ later"] by (simp add: invariant_def run_later)
    then show ?thesis using r once by simp
  qed
  show ?thesis using a b c by blast
qed

theorem close_exactly_once_witness:
  "returned (main_pc (runStdioServer example_cfg example_env sched_interrupted)) \<and>
   count_list (trace (runStdioServer example_cfg example_env sched_interrupted)) Close = 1 \<and>
   Close \<in> set (before_return (trace (runStdioServer example_cfg example_env sched_interrupted))) \<and>
   shutting_down (main_pc (runStdioServer example_cfg example_env loop_fails_waiting)) \<and>
   returned (main_pc (exec example_cfg example_env (replicate 4 (Supervisor CaseErrC))
     (runStdioServer example_cfg example_env loop_fails_waiting))) \<and>
   count_list (trace (exec example_cfg example_env (replicate 4 (Supervisor CaseErrC))
     (runStdioServer example_cfg example_env loop_fails_waiting))) Close = 1"
proof -
  have h: "returned (main_pc (runStdioServer example_cfg example_env sched_interrupted))"
    "shutting_down (main_pc (runStdioServer example_cfg example_env loop_fails_waiting))"
    "4 \<le> supervisor_turns (replicate 4 (Supervisor CaseErrC))"
    by code_simp+
  show ?thesis
    using h close_exactly_once [of example_cfg example_env sched_interrupted]
      close_exactly_once [of example_cfg example_env loop_fails_waiting
        "replicate 4 (Supervisor CaseErrC)"]
    by blast
qed

text \<open>
  C2, as stated, fails: in the run below the loop's result is in the channel before the
  signal arrives, both before the foreground goroutine reaches the \<^verbatim>\<open>select\<close>, and
  the \<^verbatim>\<open>select\<close> takes the cancellation: the event that occurred first is not the
  one that triggers the shutdown.
\<close>

theorem first_event_need_not_trigger:
  "first_event (trace (runStdioServer example_cfg example_env sched_both_ready)) = Some CaseErrC \<and>
   trigger (trace (runStdioServer example_cfg example_env sched_both_ready)) = Some CaseCtxDone \<and>
   main_pc (runStdioServer example_cfg example_env sched_both_ready) = L192 \<and>
   errC (runStdioServer example_cfg example_env sched_both_ready) =
     [Some (Error ''write: broken pipe'')]"
  by code_simp

text \<open>
  C2, amended. The case the \<^verbatim>\<open>select\<close> takes belongs to an event that has occurred
  before: the cancellation case is taken only after a signal, the channel case only after
  the loop's send. When the foreground goroutine was blocked in the \<^verbatim>\<open>select\<close>, the
  case taken is that of the event that occurred first. (When both have occurred before it
  reaches the \<^verbatim>\<open>select\<close>, either case may be taken.) In no case does the shutdown
  wait for the other event: once the goroutine stands at the \<^verbatim>\<open>select\<close> with one
  case ready, or is past it, five statements of its own are enough for it to return.
\<close>

theorem select_takes_an_occurred_event:
  "(trigger (trace (runStdioServer cfg e sched)) = Some CaseCtxDone \<longrightarrow>
      Signal \<in> set (before_select (trace (runStdioServer cfg e sched)))) \<and>
   (trigger (trace (runStdioServer cfg e sched)) = Some CaseErrC \<longrightarrow>
      filter is_send (before_select (trace (runStdioServer cfg e sched))) \<noteq> []) \<and>
   (SelectBlocked \<in> set (trace (runStdioServer cfg e sched)) \<and>
    trigger (trace (runStdioServer cfg e sched)) = Some c \<longrightarrow>
      first_event (trace (runStdioServer cfg e sched)) = Some c) \<and>
   (unblocked (runStdioServer cfg e sched) \<and> 5 \<le> supervisor_turns later \<longrightarrow>
      returned (main_pc (exec cfg e later (runStdioServer cfg e sched))))"
proof -
  let ?s = "runStdioServer cfg e sched"
  have i: "inv_trigger ?s" "inv_select ?s" "inv_defers ?s"
    using invariant_run [of cfg e sched] by (simp_all add: invariant_def)
  have late: "12 \<le> stage (main_pc ?s)" if "trigger (trace ?s) \<noteq> None"
    using that selected_stage [OF i(2)] by (simp add: trigger_None_iff)
  have a: "Signal \<in> set (before_select (trace ?s))" if "trigger (trace ?s) = Some CaseCtxDone"
    using i(1) late that by (simp add: inv_trigger_def)
  have b: "filter is_send (before_select (trace ?s)) \<noteq> []" if "trigger (trace ?s) = Some CaseErrC"
    using i(1) late that by (simp add: inv_trigger_def)
  have c: "first_event (trace ?s) = Some c"
    if "SelectBlocked \<in> set (trace ?s)" "trigger (trace ?s) = Some c"
    using i(1) late that by (simp add: inv_trigger_def)
  have d: "returned (main_pc (exec cfg e later ?s))"
    if "unblocked ?s" "5 \<le> supervisor_turns later"
    using unblocked_bound(1) [OF i(3) that(1)] that by (intro reaches_return) simp_all
  show ?thesis using a b c d by blast
qed

theorem select_takes_an_occurred_event_witness:
  "SelectBlocked \<in> set (trace (runStdioServer example_cfg example_env sched_interrupted)) \<and>
   trigger (trace (runStdioServer example_cfg example_env sched_interrupted)) = Some CaseCtxDone \<and>
   first_event (trace (runStdioServer example_cfg example_env sched_interrupted)) = Some CaseCtxDone \<and>
   Signal \<in> set (before_select (trace (runStdioServer example_cfg example_env sched_interrupted))) \<and>
   unblocked (runStdioServer example_cfg example_env (startup @ loop_starts @ [Interrupt])) \<and>
   returned (main_pc (exec example_cfg example_env (replicate 5 (Supervisor CaseErrC))
     (runStdioServer example_cfg example_env (startup @ loop_starts @ [Interrupt])))) \<and>
   trigger (trace (runStdioServer example_cfg example_env sched_failed)) = Some CaseErrC \<and>
   filter is_send (before_select (trace (runStdioServer example_cfg example_env sched_failed))) \<noteq> []"
proof -
  have h: "SelectBlocked \<in> set (trace (runStdioServer example_cfg example_env sched_interrupted))"
    "trigger (trace (runStdioServer example_cfg example_env sched_interrupted)) = Some CaseCtxDone"
    "unblocked (runStdioServer example_cfg example_env (startup @ loop_starts @ [Interrupt]))"
    "5 \<le> supervisor_turns (replicate 5 (Supervisor CaseErrC))"
    "trigger (trace (runStdioServer example_cfg example_env sched_failed)) = Some CaseErrC"
    by code_simp+
  show ?thesis
    using h select_takes_an_occurred_event [of example_cfg example_env sched_interrupted CaseCtxDone]
      select_takes_an_occurred_event [of example_cfg example_env "startup @ loop_starts @ [Interrupt]"
        _ "replicate 5 (Supervisor CaseErrC)"]
      select_takes_an_occurred_event [of example_cfg example_env sched_failed]
    by blast
qed

text \<open>
  C3, as stated, fails: in the run below the context is cancelled before any result is
  read from the channel, the loop's error is then sent, both before the foreground
  goroutine reaches the \<^verbatim>\<open>select\<close>, and the \<^verbatim>\<open>select\<close> takes the channel case:
  the supervisor returns the wrapped error and the process exits with status 1.
\<close>

theorem cancelled_first_yet_error_returned:
  "first_event (trace (runStdioServer example_cfg example_env sched_signal_first)) = Some CaseCtxDone \<and>
   Signal \<in> set (before_select (trace (runStdioServer example_cfg example_env sched_signal_first))) \<and>
   trigger (trace (runStdioServer example_cfg example_env sched_signal_first)) = Some CaseErrC \<and>
   Return (Some (Errorf ''error running server: '' (Error ''context canceled'')))
     \<in> set (trace (runStdioServer example_cfg example_env sched_signal_first)) \<and>
   main_pc (runStdioServer example_cfg example_env sched_signal_first) = Exited 1"
  by code_simp

text \<open>
  C3, amended. The shutdown is triggered by the interruption when the \<^verbatim>\<open>select\<close>
  takes the cancellation case. It does so whenever it takes a case and no result has been
  sent to the channel before, and whenever the foreground goroutine was blocked in the
  \<^verbatim>\<open>select\<close> and the cancellation was the first event. Then, whatever happens
  later and whatever the Message Loop returns and writes to the channel, no value is ever
  received from the channel, and after four more statements of its own the supervisor has
  returned nil. (With a result already in the channel when the \<^verbatim>\<open>select\<close> is
  reached, the channel case may be taken instead.) In every case a cancelled context is
  enough for the supervisor to return: five statements of its own from the
  \<^verbatim>\<open>select\<close> on.
\<close>

theorem interruption_gives_nil:
  "(trigger (trace (runStdioServer cfg e sched)) \<noteq> None \<and>
    filter is_send (before_select (trace (runStdioServer cfg e sched))) = [] \<longrightarrow>
      trigger (trace (runStdioServer cfg e sched)) = Some CaseCtxDone) \<and>
   (SelectBlocked \<in> set (trace (runStdioServer cfg e sched)) \<and>
    first_event (trace (runStdioServer cfg e sched)) = Some CaseCtxDone \<and>
    trigger (trace (runStdioServer cfg e sched)) \<noteq> None \<longrightarrow>
      trigger (trace (runStdioServer cfg e sched)) = Some CaseCtxDone) \<and>
   (trigger (trace (runStdioServer cfg e sched)) = Some CaseCtxDone \<longrightarrow>
      clean (main_pc (exec cfg e later (runStdioServer cfg e sched))) \<and>
      filter is_select (trace (exec cfg e later (runStdioServer cfg e sched))) = [SelectDone] \<and>
      (4 \<le> supervisor_turns later \<longrightarrow>
         (main_pc (exec cfg e later (runStdioServer cfg e sched)) = Returned None \<or>
          main_pc (exec cfg e later (runStdioServer cfg e sched)) = Exited 0) \<and>
         Return None \<in> set (trace (exec cfg e later (runStdioServer cfg e sched))))) \<and>
   (Signal \<in> set (trace (runStdioServer cfg e sched)) \<and>
    10 \<le> stage (main_pc (runStdioServer cfg e sched)) \<and> 5 \<le> supervisor_turns later \<longrightarrow>
      returned (main_pc (exec cfg e later (runStdioServer cfg e sched))))"
proof -
  let ?s = "runStdioServer cfg e sched"
  let ?t = "exec cfg e later ?s"
  have i: "inv_select ?s" "inv_defers ?s" "inv_trigger ?s" "inv_chan ?s"
    using invariant_run [of cfg e sched] by (simp_all add: invariant_def)
  have j: "inv_select ?t" "inv_report ?t"
    using invariant_later [of cfg e later sched] by (simp_all add: invariant_def)
  have late: "12 \<le> stage (main_pc ?s)" if "trigger (trace ?s) \<noteq> None"
    using that selected_stage [OF i(1)] by (simp add: trigger_None_iff)
  have a: "trigger (trace ?s) = Some CaseCtxDone"
    if "trigger (trace ?s) \<noteq> None" "filter is_send (before_select (trace ?s)) = []"
  proof -
    have "trigger (trace ?s) \<noteq> Some CaseErrC"
      using i(3) late [OF that(1)] that(2) by (auto simp: inv_trigger_def)
    then show ?thesis using that(1) by (cases "trigger (trace ?s)"; cases "the (trigger (trace ?s))") auto
  qed
  have b: "trigger (trace ?s) = Some CaseCtxDone"
    if "SelectBlocked \<in> set (trace ?s)" "first_event (trace ?s) = Some CaseCtxDone"
      "trigger (trace ?s) \<noteq> None"
    using i(3) late [OF that(3)] that(1,2) by (simp add: inv_trigger_def)
  have c: "clean (main_pc ?t) \<and> filter is_select (trace ?t) = [SelectDone] \<and>
     (4 \<le> supervisor_turns later \<longrightarrow>
        (main_pc ?t = Returned None \<or> main_pc ?t = Exited 0) \<and> Return None \<in> set (trace ?t))"
    if tr: "trigger (trace ?s) = Some CaseCtxDone"
  proof -
    obtain as where ext: "trace ?t = trace ?s @ as" using exec_trace by blast
    have "SelectDone \<in> set (trace ?t)" using trigger_selected(1) [OF tr] ext by simp
    then have sel: "filter is_select (trace ?t) = [SelectDone]"
      using selected_unique [OF j(1)] by simp
    then have cl: "clean (main_pc ?t)" using j(1) by (simp add: inv_select_def outcome_ok_def)
    have l: "12 \<le> stage (main_pc ?s)" using late tr by simp
    have fin: "(main_pc ?t = Returned None \<or> main_pc ?t = Exited 0) \<and> Return None \<in> set (trace ?t)"
      if "4 \<le> supervisor_turns later"
    proof -
      from shutting_down_bound(1,2) [OF i(2) l] that
      have r: "returned (main_pc ?t)" by (intro reaches_return) simp_all
      then have "main_pc ?t = Returned None \<or> main_pc ?t = Exited 0"
        using cl by (cases "main_pc ?t" rule: clean.cases) simp_all
      moreover have "result_of (trace ?t) = None" using sel by (simp add: result_of_def)
      ultimately show ?thesis using j(2) r by (simp add: inv_report_def)
    qed
    show ?thesis using cl sel fin by blast
  qed
  have d: "returned (main_pc ?t)"
    if sg: "Signal \<in> set (trace ?s)" and st: "10 \<le> stage (main_pc ?s)"
      and turns: "5 \<le> supervisor_turns later"
  proof -
    have "ctx_done ?s" if "stage (main_pc ?s) \<le> 11"
      using i(3) sg that by (simp add: inv_trigger_def)
    then have u: "unblocked ?s"
      using i(4) st by (cases "main_pc ?s") (auto simp: inv_chan_def unblocked_def)
    show ?thesis
      using unblocked_bound(1) [OF i(2) u] turns by (intro reaches_return [OF u]) simp
  qed
  show ?thesis using a b c d by blast
qed

theorem interruption_gives_nil_witness:
  "trigger (trace (runStdioServer example_cfg example_env interrupted_waiting)) = Some CaseCtxDone \<and>
   SelectBlocked \<in> set (trace (runStdioServer example_cfg example_env interrupted_waiting)) \<and>
   first_event (trace (runStdioServer example_cfg example_env interrupted_waiting)) = Some CaseCtxDone \<and>
   filter is_send (before_select (trace (runStdioServer example_cfg example_env interrupted_waiting))) = [] \<and>
   Signal \<in> set (trace (runStdioServer example_cfg example_env interrupted_waiting)) \<and>
   SendErrC (Some (Error ''read: file already closed''))
     \<in> set (trace (exec example_cfg example_env fails_later
          (runStdioServer example_cfg example_env interrupted_waiting))) \<and>
   filter is_select (trace (exec example_cfg example_env fails_later
     (runStdioServer example_cfg example_env interrupted_waiting))) = [SelectDone] \<and>
   main_pc (exec example_cfg example_env fails_later
     (runStdioServer example_cfg example_env interrupted_waiting)) = Exited 0 \<and>
   Return None \<in> set (trace (exec example_cfg example_env fails_later
     (runStdioServer example_cfg example_env interrupted_waiting)))"
proof -
  have h: "trigger (trace (runStdioServer example_cfg example_env interrupted_waiting)) \<noteq> None"
    "filter is_send (before_select (trace (runStdioServer example_cfg example_env interrupted_waiting))) = []"
    "SelectBlocked \<in> set (trace (runStdioServer example_cfg example_env interrupted_waiting))"
    "first_event (trace (runStdioServer example_cfg example_env interrupted_waiting)) = Some CaseCtxDone"
    "Signal \<in> set (trace (runStdioServer example_cfg example_env interrupted_waiting))"
    "10 \<le> stage (main_pc (runStdioServer example_cfg example_env interrupted_waiting))"
    "5 \<le> supervisor_turns fails_later"
    "4 \<le> supervisor_turns fails_later"
    "SendErrC (Some (Error ''read: file already closed''))
       \<in> set (trace (exec example_cfg example_env fails_later
            (runStdioServer example_cfg example_env interrupted_waiting)))"
    "main_pc (exec example_cfg example_env fails_later
       (runStdioServer example_cfg example_env interrupted_waiting)) = Exited 0"
    by code_simp+
  show ?thesis
    using h interruption_gives_nil [of example_cfg example_env interrupted_waiting fails_later]
    by blast
qed

text \<open>
  C4. If the \<^verbatim>\<open>select\<close> receives a non-nil error \<open>err\<close> from the channel, the
  supervisor is from then on on the path that returns \<open>err\<close> wrapped as
  "error running server: ...", and after five more statements of the foreground
  goroutine that wrapped error has been returned, \<^verbatim>\<open>stdlog.Fatal\<close> has printed it
  and the process has exited with status 1.
\<close>

theorem loop_error_is_result:
  "SelectRecv (Some err) \<in> set (trace (runStdioServer cfg e sched)) \<longrightarrow>
     after_recv (Some err) (main_pc (exec cfg e later (runStdioServer cfg e sched))) \<and>
     (5 \<le> supervisor_turns later \<longrightarrow>
        main_pc (exec cfg e later (runStdioServer cfg e sched)) = Exited 1 \<and>
        Return (Some (Errorf ''error running server: '' err))
          \<in> set (trace (exec cfg e later (runStdioServer cfg e sched))) \<and>
        Fatal ''failed to run stdio server:'' (Errorf ''error running server: '' err)
          \<in> set (trace (exec cfg e later (runStdioServer cfg e sched))))"
proof
  let ?s = "runStdioServer cfg e sched"
  let ?t = "exec cfg e later ?s"
  assume rc: "SelectRecv (Some err) \<in> set (trace ?s)"
  have i: "inv_select ?s" "inv_defers ?s"
    using invariant_run [of cfg e sched] by (simp_all add: invariant_def)
  have j: "inv_select ?t" "inv_report ?t"
    using invariant_later [of cfg e later sched] by (simp_all add: invariant_def)
  obtain as where ext: "trace ?t = trace ?s @ as" using exec_trace by blast
  have "SelectRecv (Some err) \<in> set (trace ?t)" using rc ext by simp
  then have sel: "filter is_select (trace ?t) = [SelectRecv (Some err)]"
    using selected_unique [OF j(1)] by simp
  then have ar: "after_recv (Some err) (main_pc ?t)"
    using j(1) by (simp add: inv_select_def outcome_ok_def)
  have res: "result_of (trace ?t) = Some (Errorf ''error running server: '' err)"
    using sel by (simp add: result_of_def)
  have "filter is_select (trace ?s) \<noteq> []"
    using selected_unique [OF i(1) rc] by simp
  then have late: "12 \<le> stage (main_pc ?s)" by (rule selected_stage [OF i(1)])
  have fin: "main_pc ?t = Exited 1 \<and>
      Return (Some (Errorf ''error running server: '' err)) \<in> set (trace ?t) \<and>
      Fatal ''failed to run stdio server:'' (Errorf ''error running server: '' err) \<in> set (trace ?t)"
    if "5 \<le> supervisor_turns later"
  proof -
    from shutting_down_bound(1,3) [OF i(2) late] that
    have x: "exited (main_pc ?t)" by (intro reaches_exit) simp_all
    then have "main_pc ?t = Exited 1"
      using ar by (cases "main_pc ?t") simp_all
    then show ?thesis using j(2) res by (simp add: inv_report_def)
  qed
  show "after_recv (Some err) (main_pc ?t) \<and>
     (5 \<le> supervisor_turns later \<longrightarrow>
        main_pc ?t = Exited 1 \<and>
        Return (Some (Errorf ''error running server: '' err)) \<in> set (trace ?t) \<and>
        Fatal ''failed to run stdio server:'' (Errorf ''error running server: '' err) \<in> set (trace ?t))"
    using ar fin by blast
qed

theorem loop_error_is_result_witness:
  "SelectRecv (Some (Error ''write: broken pipe''))
     \<in> set (trace (runStdioServer example_cfg example_env loop_fails_waiting)) \<and>
   main_pc (exec example_cfg example_env (replicate 6 (Supervisor CaseErrC))
     (runStdioServer example_cfg example_env loop_fails_waiting)) = Exited 1 \<and>
   Fatal ''failed to run stdio server:''
       (Errorf ''error running server: '' (Error ''write: broken pipe''))
     \<in> set (trace (exec example_cfg example_env (replicate 6 (Supervisor CaseErrC))
          (runStdioServer example_cfg example_env loop_fails_waiting)))"
proof -
  have h: "SelectRecv (Some (Error ''write: broken pipe''))
       \<in> set (trace (runStdioServer example_cfg example_env loop_fails_waiting))"
    "5 \<le> supervisor_turns (replicate 6 (Supervisor CaseErrC))"
    by code_simp+
  show ?thesis
    using h loop_error_is_result [of "Error ''write: broken pipe''" example_cfg example_env
        loop_fails_waiting "replicate 6 (Supervisor CaseErrC)"]
    by blast
qed

text \<open>
  C5. When the Message Loop returns nil whenever it returns (the loop is an imported
  package; this is what is said of it on an input closed with no bytes sent), a
  supervisor that has returned has returned nil, and a process that has exited has exited
  with status 0. Without an interruption the foreground goroutine does not get past the
  \<^verbatim>\<open>select\<close> before the loop has made its send; once it is past, the one result
  \<^verbatim>\<open>Listen\<close> returned is nil, it was sent to the channel before the
  \<^verbatim>\<open>select\<close> took its case, the \<^verbatim>\<open>select\<close> received that nil, and the
  channel is empty again. And once the loop has written its result and the foreground
  goroutine is at the \<^verbatim>\<open>select\<close> or past it, six statements of its own are enough
  for the process to exit with status 0.
\<close>

theorem closed_input_exits_cleanly:
  "list_all returns_nil sched \<longrightarrow>
     (returned (main_pc (runStdioServer cfg e sched)) \<longrightarrow>
        main_pc (runStdioServer cfg e sched) = Returned None \<or>
        main_pc (runStdioServer cfg e sched) = Exited 0) \<and>
     (list_all no_interrupt sched \<and> loop_pc (runStdioServer cfg e sched) \<noteq> Finished \<longrightarrow>
        stage (main_pc (runStdioServer cfg e sched)) \<le> 11) \<and>
     (list_all no_interrupt sched \<and> 12 \<le> stage (main_pc (runStdioServer cfg e sched)) \<longrightarrow>
        listen_results (trace (runStdioServer cfg e sched)) = [None] \<and>
        filter is_send (before_select (trace (runStdioServer cfg e sched))) = [SendErrC None] \<and>
        filter is_select (trace (runStdioServer cfg e sched)) = [SelectRecv None] \<and>
        errC (runStdioServer cfg e sched) = [] \<and>
        loop_pc (runStdioServer cfg e sched) = Finished) \<and>
     (loop_pc (runStdioServer cfg e sched) = Finished \<and>
      10 \<le> stage (main_pc (runStdioServer cfg e sched)) \<and> 6 \<le> supervisor_turns later \<longrightarrow>
        main_pc (exec cfg e later (runStdioServer cfg e sched)) = Exited 0)"
proof
  let ?s = "runStdioServer cfg e sched"
  let ?t = "exec cfg e later ?s"
  assume nil: "list_all returns_nil sched"
  have n: "inv_nil ?s" by (rule inv_nil_run [OF nil])
  have i: "inv_select ?s" "inv_defers ?s" "inv_chan ?s"
    using invariant_run [of cfg e sched] by (simp_all add: invariant_def)
  have m: "inv_sent ?s" "inv_recv ?s" using more_invariants_run [of cfg e sched] by simp_all
  have a: "main_pc ?s = Returned None \<or> main_pc ?s = Exited 0" if "returned (main_pc ?s)"
    using n that by (cases "main_pc ?s") (simp_all add: inv_nil_def)
  have b: "listen_results (trace ?s) = [None] \<and>
      filter is_send (before_select (trace ?s)) = [SendErrC None] \<and>
      filter is_select (trace ?s) = [SelectRecv None] \<and> errC ?s = [] \<and> loop_pc ?s = Finished"
    if q: "list_all no_interrupt sched" and st: "12 \<le> stage (main_pc ?s)"
  proof -
    have "SelectRecv None \<in> set (trace ?s)"
      by (rule nil_received [OF i(1) n inv_quiet_run [OF q] st])
    then have sel: "filter is_select (trace ?s) = [SelectRecv None]"
      using selected_unique [OF i(1)] by simp
    then have "trigger (trace ?s) = Some CaseErrC" by (rule trigger_of_recv)
    then have r: "loop_pc ?s = Finished" "errC ?s = []"
      "length (filter is_send (before_select (trace ?s))) = 1"
      "filter is_select (trace ?s) = map recv_of (filter is_send (before_select (trace ?s)))"
      using m(2) st by (simp_all add: inv_recv_def)
    from r(3) obtain x where x: "filter is_send (before_select (trace ?s)) = [x]"
      by (cases "filter is_send (before_select (trace ?s))") auto
    then have "x \<in> set (filter is_send (before_select (trace ?s)))" by simp
    then have "is_send x" by simp
    moreover have "recv_of x = SelectRecv None" using r(4) sel x by simp
    ultimately have "x = SendErrC None" by (rule recv_of_send)
    then have bs: "filter is_send (before_select (trace ?s)) = [SendErrC None]" using x by simp
    have "length (filter is_send (trace ?s)) \<le> 1" using i(3) by (simp add: inv_chan_def)
    then have "filter is_send (trace ?s) = [SendErrC None]" using bs by (rule sends_before_select)
    moreover have "length (listen_results (trace ?s)) = 1"
      "filter is_send (trace ?s) = map SendErrC (listen_results (trace ?s))"
      using m(1) r(1) by (simp_all add: inv_sent_def)
    ultimately have "listen_results (trace ?s) = [None]"
      by (cases "listen_results (trace ?s)") auto
    then show ?thesis using bs sel r(1,2) by simp
  qed
  have w: "stage (main_pc ?s) \<le> 11"
    if "list_all no_interrupt sched" "loop_pc ?s \<noteq> Finished"
  proof (rule ccontr)
    assume "\<not> stage (main_pc ?s) \<le> 11"
    then have "12 \<le> stage (main_pc ?s)" by simp
    then show False using b that by blast
  qed
  have c: "main_pc ?t = Exited 0"
    if f: "loop_pc ?s = Finished" and st: "10 \<le> stage (main_pc ?s)"
      and turns: "6 \<le> supervisor_turns later"
  proof -
    have u: "unblocked ?s"
      using i(3) f st by (cases "main_pc ?s") (auto simp: inv_chan_def unblocked_def)
    have x: "exited (main_pc ?t)"
      using unblocked_bound(2) [OF i(2) u] turns by (intro reaches_exit [OF u]) simp
    have "inv_nil ?t \<and> loop_pc ?t = Finished \<and> 9 \<le> stage (main_pc ?t)"
    proof (rule exec_invariant
        [where P = "\<lambda>t. inv_nil t \<and> loop_pc t = Finished \<and> 9 \<le> stage (main_pc t)"])
      show "inv_nil ?s \<and> loop_pc ?s = Finished \<and> 9 \<le> stage (main_pc ?s)"
        using n f st by simp
    next
      fix t ev t'
      assume "inv_nil t \<and> loop_pc t = Finished \<and> 9 \<le> stage (main_pc t)"
        and "step cfg e ev t = Some t'"
      then show "inv_nil t' \<and> loop_pc t' = Finished \<and> 9 \<le> stage (main_pc t')"
        by (rule inv_nil_finished_step)
    qed
    then show ?thesis using x by (cases "main_pc ?t") (simp_all add: inv_nil_def)
  qed
  show "(returned (main_pc ?s) \<longrightarrow> main_pc ?s = Returned None \<or> main_pc ?s = Exited 0) \<and>
     (list_all no_interrupt sched \<and> loop_pc ?s \<noteq> Finished \<longrightarrow> stage (main_pc ?s) \<le> 11) \<and>
     (list_all no_interrupt sched \<and> 12 \<le> stage (main_pc ?s) \<longrightarrow>
        listen_results (trace ?s) = [None] \<and>
        filter is_send (before_select (trace ?s)) = [SendErrC None] \<and>
        filter is_select (trace ?s) = [SelectRecv None] \<and> errC ?s = [] \<and> loop_pc ?s = Finished) \<and>
     (loop_pc ?s = Finished \<and> 10 \<le> stage (main_pc ?s) \<and> 6 \<le> supervisor_turns later \<longrightarrow>
        main_pc ?t = Exited 0)"
    using a b w c by blast
qed

theorem closed_input_exits_cleanly_witness:
  "list_all returns_nil sched_closed \<and> list_all no_interrupt sched_closed \<and>
   main_pc (runStdioServer example_cfg example_env sched_waiting) = Parked \<and>
   errC (runStdioServer example_cfg example_env closed_at_once) = [None] \<and>
   main_pc (runStdioServer example_cfg example_env sched_closed) = Exited 0 \<and>
   listen_results (trace (runStdioServer example_cfg example_env sched_closed)) = [None] \<and>
   filter is_send (before_select (trace (runStdioServer example_cfg example_env sched_closed)))
     = [SendErrC None] \<and>
   filter is_select (trace (runStdioServer example_cfg example_env sched_closed)) = [SelectRecv None] \<and>
   errC (runStdioServer example_cfg example_env sched_closed) = [] \<and>
   loop_pc (runStdioServer example_cfg example_env closed_at_once) = Finished \<and>
   main_pc (exec example_cfg example_env (replicate 6 (Supervisor CaseErrC))
     (runStdioServer example_cfg example_env closed_at_once)) = Exited 0"
proof -
  have h: "list_all returns_nil sched_closed" "list_all no_interrupt sched_closed"
    "list_all returns_nil closed_at_once"
    "list_all returns_nil sched_waiting" "list_all no_interrupt sched_waiting"
    "loop_pc (runStdioServer example_cfg example_env sched_waiting) \<noteq> Finished"
    "main_pc (runStdioServer example_cfg example_env sched_waiting) = Parked"
    "errC (runStdioServer example_cfg example_env closed_at_once) = [None]"
    "returned (main_pc (runStdioServer example_cfg example_env sched_closed))"
    "12 \<le> stage (main_pc (runStdioServer example_cfg example_env sched_closed))"
    "main_pc (runStdioServer example_cfg example_env sched_closed) = Exited 0"
    "loop_pc (runStdioServer example_cfg example_env closed_at_once) = Finished"
    "10 \<le> stage (main_pc (runStdioServer example_cfg example_env closed_at_once))"
    "6 \<le> supervisor_turns (replicate 6 (Supervisor CaseErrC))"
    by code_simp+
  show ?thesis
    using h closed_input_exits_cleanly [of sched_closed example_cfg example_env]
      closed_input_exits_cleanly [of sched_waiting example_cfg example_env]
      closed_input_exits_cleanly [of closed_at_once example_cfg example_env
        "replicate 6 (Supervisor CaseErrC)"]
    by blast
qed




text \<open>
  C7. In every run, neither the start of the background goroutine nor its call of
  \<^verbatim>\<open>Listen\<close> stands before the submission of the "mcp_server_started" event, and
  once the goroutine has been started the event has been submitted.
\<close>

theorem started_event_first:
  "precedes (Track ''mcp_server_started'') Go (trace (runStdioServer cfg e sched)) \<and>
   precedes (Track ''mcp_server_started'') (Listen tapped) (trace (runStdioServer cfg e sched)) \<and>
   (loop_pc (runStdioServer cfg e sched) \<noteq> NotSpawned \<longrightarrow>
      Track ''mcp_server_started'' \<in> set (trace (runStdioServer cfg e sched)))"
proof -
  have i: "inv_order (runStdioServer cfg e sched)"
    using invariant_run [of cfg e sched] by (simp add: invariant_def)
  then show ?thesis by (cases tapped) (auto simp: inv_order_def)
qed

theorem started_event_first_witness:
  "loop_pc (runStdioServer example_cfg example_env sched_closed) \<noteq> NotSpawned \<and>
   Listen False \<in> set (trace (runStdioServer example_cfg example_env sched_closed)) \<and>
   precedes (Track ''mcp_server_started'') (Listen False)
     (trace (runStdioServer example_cfg example_env sched_closed)) \<and>
   Track ''mcp_server_started'' \<in> set (trace (runStdioServer example_cfg example_env sched_closed))"
proof -
  have h: "loop_pc (runStdioServer example_cfg example_env sched_closed) \<noteq> NotSpawned"
    "Listen False \<in> set (trace (runStdioServer example_cfg example_env sched_closed))"
    by code_simp+
  show ?thesis
    using h started_event_first [of example_cfg example_env sched_closed False] by blast
qed

text \<open>
  C8. The tap is transparent: for every underlying stream pair, every sink (also one
  whose writes fail) and every Message Loop, the session with command logging gives the
  loop the same answers to its reads and writes, byte for byte and error for error, and
  the same result, and leaves the underlying streams in the same state, as the session
  without.
\<close>

theorem tap_is_transparent:
  "session (cfg\<lparr>logCommands := True\<rparr>) rc rd wr loop s k =
   session (cfg\<lparr>logCommands := False\<rparr>) rc rd wr loop s k"
  using tap_transparent [of rc rd wr loop "\<lparr>inner = s, sink = k, warnings = 0\<rparr>"]
  by (simp add: session_def case_prod_unfold prod_eq_iff)

text \<open>
  C9. A log file that cannot be opened is fatal before the session starts: for a
  non-empty log-file path that the operating system refuses to open, the process prints
  the failure and exits with status 1, and neither the supervisor nor the Message Loop
  has run a statement, whatever the schedule. Conversely, with an empty path
  \<open>initLogger\<close> succeeds whatever the file system answers, its logger writes to the
  default process output, and the session runs with that logger.
\<close>

theorem config_error_is_fatal:
  "(log_file e \<noteq> [] \<and> openFile e (log_file e) = Inl err \<longrightarrow>
      stdioCmd_Run e sched =
        init\<lparr>main_pc := Exited 1,
             trace := [Fatal ''Failed to initialize logger:''
                         (Errorf ''failed to open log file: '' err), Exit 1]\<rparr>) \<and>
   initLogger opn [] = Inr log_New \<and> out log_New = DefaultOutput \<and>
   (log_file e = [] \<longrightarrow>
      stdioCmd_Run e sched =
        runStdioServer
          \<lparr>readOnly = read_only e, logger = log_New,
           logCommands = enable_command_logging e, enabledToolsets = toolsets e\<rparr> e sched)"
  by (simp add: stdioCmd_Run_def initLogger_def log_New_def)

theorem config_error_is_fatal_witness:
  "stdioCmd_Run (example_env\<lparr>log_file := ''/root/mcp.log''\<rparr>) sched_closed =
     init\<lparr>main_pc := Exited 1,
          trace := [Fatal ''Failed to initialize logger:''
                      (Errorf ''failed to open log file: '' (Error ''permission denied'')), Exit 1]\<rparr> \<and>
   loop_pc (stdioCmd_Run (example_env\<lparr>log_file := ''/root/mcp.log''\<rparr>) sched_closed) = NotSpawned \<and>
   stdioCmd_Run example_env sched_closed = runStdioServer example_cfg example_env sched_closed"
  using config_error_is_fatal [of "example_env\<lparr>log_file := ''/root/mcp.log''\<rparr>"
          "Error ''permission denied''" sched_closed]
        config_error_is_fatal [of example_env _ sched_closed]
  by (simp add: example_env_def example_cfg_def init_def)

text \<open>
  C10. The read-only flag and the enabled toolsets do not reach the supervisor: two
  configurations with the same logger and the same command-logging flag give, under
  every schedule and in every surroundings, the same run of \<open>runStdioServer\<close>: the
  same actions in the same order, the same program points, the same result.
\<close>

theorem flags_not_read:
  "logger cfg1 = logger cfg2 \<and> logCommands cfg1 = logCommands cfg2 \<longrightarrow>
     runStdioServer cfg1 e sched = runStdioServer cfg2 e sched"
  using exec_ignores_flags [of cfg1 cfg2 e sched init] by (simp add: runStdioServer_def)

theorem flags_not_read_witness:
  "runStdioServer (example_cfg\<lparr>readOnly := True, enabledToolsets := []\<rparr>) example_env sched_failed =
   runStdioServer example_cfg example_env sched_failed"
  using flags_not_read [of "example_cfg\<lparr>readOnly := True, enabledToolsets := []\<rparr>" example_cfg
          example_env sched_failed]
  by (simp add: example_cfg_def)

end
